theory Spec2Isabelle
  imports Complex_Main "HOL-Library.Word" "HOL-Library.Sublist" "HOL-Library.Log_Nat"
    "HOL-Library.Product_Lexorder"
begin

section \<open>Strings of the program\<close>

text \<open>
  A JavaScript string is a sequence of UTF-16 code units, and \<^verbatim>\<open>length\<close>,
  \<^verbatim>\<open>slice\<close>, \<^verbatim>\<open>trim\<close> and the regular expressions of \<^verbatim>\<open>script.js\<close>
  (none has the \<^verbatim>\<open>u\<close> flag) all work on code units. A code unit is a 16-bit word.
\<close>

type_synonym jschar = "16 word"
type_synonym jsstring = "jschar list"

text \<open>An ASCII literal as a JavaScript string.\<close>

definition js :: "string \<Rightarrow> jsstring" where
  "js s = map of_char s"

definition NUL :: jschar where "NUL = 0x00"
definition TAB :: jschar where "TAB = 0x09"
definition LF :: jschar where "LF = 0x0A"
definition CR :: jschar where "CR = 0x0D"
definition SP :: jschar where "SP = 0x20"

text \<open>
  \<^verbatim>\<open>String.prototype.trim\<close> removes the code units of the ECMAScript productions
  WhiteSpace and LineTerminator from both ends.
\<close>

definition isWhite :: "jschar \<Rightarrow> bool" where
  "isWhite c \<longleftrightarrow>
     c = 0x09 \<or> c = 0x0A \<or> c = 0x0B \<or> c = 0x0C \<or> c = 0x0D \<or> c = 0x20 \<or> c = 0xA0 \<or>
     c = 0x1680 \<or> (0x2000 \<le> c \<and> c \<le> 0x200A) \<or> c = 0x2028 \<or> c = 0x2029 \<or>
     c = 0x202F \<or> c = 0x205F \<or> c = 0x3000 \<or> c = 0xFEFF"

definition trim :: "jsstring \<Rightarrow> jsstring" where
  "trim s = rev (dropWhile isWhite (rev (dropWhile isWhite s)))"

text \<open>
  \<^verbatim>\<open>t.slice(start, end)\<close> for \<open>0 \<le> start\<close> and \<open>0 \<le> end\<close>: the code units from
  \<open>start\<close> up to, not including, \<open>end\<close>, both clamped to the length.
\<close>

definition slice :: "jsstring \<Rightarrow> nat \<Rightarrow> nat \<Rightarrow> jsstring" where
  "slice t start end = take (end - start) (drop start t)"

section \<open>normalizeText\<close>

text \<open>\<^verbatim>\<open>.replace(/\u0000/g, " ")\<close>\<close>

definition replaceNul :: "jsstring \<Rightarrow> jsstring" where
  "replaceNul s = map (\<lambda>c. if c = NUL then SP else c) s"

text \<open>
  \<^verbatim>\<open>.replace(/[ \t]+/g, " ")\<close>: at a blank, the greedy match takes the whole run
  of blanks and one space replaces it; the scan goes on after the run.
\<close>

definition isBlank :: "jschar \<Rightarrow> bool" where
  "isBlank c \<longleftrightarrow> c = SP \<or> c = TAB"

function collapseBlanks :: "jsstring \<Rightarrow> jsstring" where
  "collapseBlanks [] = []"
| "collapseBlanks (c # cs) =
     (if isBlank c then SP # collapseBlanks (dropWhile isBlank cs)
      else c # collapseBlanks cs)"
  by pat_completeness auto
termination
  by (relation "measure length") (auto simp: length_dropWhile_le less_Suc_eq_le)

text \<open>\<^verbatim>\<open>.replace(/\r\n/g, "\n")\<close>: one pass from the left, matches do not overlap.\<close>

fun replaceCRLF :: "jsstring \<Rightarrow> jsstring" where
  "replaceCRLF [] = []"
| "replaceCRLF [c] = [c]"
| "replaceCRLF (c # d # cs) =
     (if c = CR \<and> d = LF then LF # replaceCRLF cs else c # replaceCRLF (d # cs))"

text \<open>
  \<^verbatim>\<open>.replace(/\n{3,}/g, "\n\n")\<close>: at a newline, the greedy match takes the whole
  run of newlines; a run of three or more becomes two, a shorter run matches nowhere
  and stays.
\<close>

function collapseNewlines :: "jsstring \<Rightarrow> jsstring" where
  "collapseNewlines [] = []"
| "collapseNewlines (c # cs) =
     (if c = LF then
        (let run = c # takeWhile (\<lambda>x. x = LF) cs
         in (if 3 \<le> length run then [LF, LF] else run)
            @ collapseNewlines (dropWhile (\<lambda>x. x = LF) cs))
      else c # collapseNewlines cs)"
  by pat_completeness auto
termination
  by (relation "measure length") (auto simp: length_dropWhile_le less_Suc_eq_le)

text \<open>
  The argument of \<^verbatim>\<open>normalizeText\<close> is a string (\<^verbatim>\<open>t ?? ""\<close> makes null and
  undefined the empty string).
\<close>

definition normalizeText :: "jsstring \<Rightarrow> jsstring" where
  "normalizeText t = trim (collapseNewlines (replaceCRLF (collapseBlanks (replaceNul t))))"

section \<open>chunkText\<close>

definition CHUNK_CHARS :: nat where "CHUNK_CHARS = 1200"
definition CHUNK_OVERLAP :: nat where "CHUNK_OVERLAP = 200"

text \<open>
  The \<^verbatim>\<open>while\<close> loop of \<^verbatim>\<open>chunkText\<close>, with the loop variables \<open>start\<close> and
  \<open>out\<close> as arguments. The loop need not end (with \<open>overlap \<ge> chunkSize\<close> the start
  does not advance), so a run that never returns is the value \<open>None\<close>. The sizes
  are counts of code units: natural numbers.
\<close>

partial_function (option) chunkLoop ::
  "jsstring \<Rightarrow> nat \<Rightarrow> nat \<Rightarrow> nat \<Rightarrow> jsstring list \<Rightarrow> jsstring list option" where
  "chunkLoop t chunkSize overlap start out =
     (if start < length t then
        (let end = min (length t) (start + chunkSize);
             piece = trim (slice t start end);
             out' = (if 30 \<le> length piece then out @ [piece] else out)
         in if length t \<le> end then Some out'
            else chunkLoop t chunkSize overlap (nat (max 0 (int end - int overlap))) out')
      else Some out)"

declare chunkLoop.simps [code]

definition chunkText :: "jsstring \<Rightarrow> nat \<Rightarrow> nat \<Rightarrow> jsstring list option" where
  "chunkText text chunkSize overlap =
     (let t = normalizeText text
      in if t = [] then Some [] else chunkLoop t chunkSize overlap 0 [])"

text \<open>
  The windows the same loop visits: the pairs \<open>(start, end)\<close> of its iterations, in
  order.
\<close>

partial_function (option) chunkWindows ::
  "nat \<Rightarrow> nat \<Rightarrow> nat \<Rightarrow> nat \<Rightarrow> (nat \<times> nat) list \<Rightarrow> (nat \<times> nat) list option" where
  "chunkWindows len chunkSize overlap start ws =
     (if start < len then
        (let end = min len (start + chunkSize);
             ws' = ws @ [(start, end)]
         in if len \<le> end then Some ws'
            else chunkWindows len chunkSize overlap (nat (max 0 (int end - int overlap))) ws')
      else Some ws)"

declare chunkWindows.simps [code]

text \<open>What the loop pushes for a list of windows: the trimmed slices of length 30 or more.\<close>

definition pieces :: "jsstring \<Rightarrow> (nat \<times> nat) list \<Rightarrow> jsstring list" where
  "pieces t ws = filter (\<lambda>p. 30 \<le> length p) (map (\<lambda>(s, e). trim (slice t s e)) ws)"

section \<open>Numbers\<close>

text \<open>
  A JavaScript number is an IEEE 754 double: NaN, the two infinities, or a finite value,
  here a real number (the two zeros are one value). An entry of a \<^verbatim>\<open>Float32Array\<close> is
  read as a double.
\<close>

datatype double = NaN | NegInf | Finite real | PosInf

text \<open>
  Sums and products of doubles are rounded. The model does not say how: the two
  operations are parameters, and everything below holds for whatever they return.
\<close>

record arith =
  fadd :: "double \<Rightarrow> double \<Rightarrow> double"
  fmul :: "double \<Rightarrow> double \<Rightarrow> double"

text \<open>
  The comparisons \<^verbatim>\<open>>\<close> and \<^verbatim>\<open>>=\<close> of doubles are exact; with a NaN on either side
  both are false.
\<close>

fun dgt :: "double \<Rightarrow> double \<Rightarrow> bool" where
  "dgt NaN _ = False"
| "dgt _ NaN = False"
| "dgt PosInf PosInf = False"
| "dgt PosInf _ = True"
| "dgt _ PosInf = False"
| "dgt NegInf _ = False"
| "dgt (Finite a) NegInf = True"
| "dgt (Finite a) (Finite b) = (b < a)"

definition dge :: "double \<Rightarrow> double \<Rightarrow> bool" where
  "dge a b \<longleftrightarrow> a \<noteq> NaN \<and> b \<noteq> NaN \<and> \<not> dgt b a"

text \<open>The finite doubles, and the real number that a finite double is.\<close>

fun isFinite :: "double \<Rightarrow> bool" where
  "isFinite (Finite _) = True"
| "isFinite _ = False"

fun realOf :: "double \<Rightarrow> real" where
  "realOf (Finite r) = r"
| "realOf _ = 0"

text \<open>
  The value of a decimal numeral. Every integer up to \<open>2^53\<close> is a double, so there
  \<^verbatim>\<open>Number(m[1])\<close> is exact; a larger value is rounded to a double or to Infinity by
  the runtime, and that rounding is a parameter.
\<close>

definition decimal :: "jsstring \<Rightarrow> int" where
  "decimal ds = foldl (\<lambda>n c. 10 * n + (uint c - 48)) 0 ds"

definition Number :: "(int \<Rightarrow> double) \<Rightarrow> jsstring \<Rightarrow> double" where
  "Number rnd ds = (let n = decimal ds in if n \<le> 2 ^ 53 then Finite (of_int n) else rnd n)"

section \<open>Retrieval\<close>

text \<open>
  The values that \<^verbatim>\<open>JSON.parse\<close> returns. An object is the list of its own
  properties.
\<close>

datatype json =
    JNull
  | JBool bool
  | JNum real
  | JStr jsstring
  | JArr "json list"
  | JObj "(jsstring \<times> json) list"

text \<open>
  A chunk in memory is an object whose \<^verbatim>\<open>embedding\<close> property is a \<^verbatim>\<open>Float32Array\<close>
  or \<^verbatim>\<open>null\<close>; its other own properties (\<^verbatim>\<open>id\<close>, \<^verbatim>\<open>docId\<close>, \<^verbatim>\<open>docName\<close>, \<^verbatim>\<open>page\<close>,
  \<^verbatim>\<open>text\<close>, and whatever an imported file added) are JSON values.
\<close>

type_synonym vec = "double list"

record chunk =
  props :: "(jsstring \<times> json) list"
  embedding :: "vec option"

text \<open>
  The loop of \<^verbatim>\<open>dot\<close>: it runs over the first \<open>min a.length b.length\<close> entries and
  adds each product to the sum, which starts at 0.
\<close>

fun dotLoop :: "arith \<Rightarrow> vec \<Rightarrow> vec \<Rightarrow> double \<Rightarrow> double" where
  "dotLoop ar (x # xs) (y # ys) s = dotLoop ar xs ys (fadd ar s (fmul ar x y))"
| "dotLoop ar _ _ s = s"

definition dot :: "arith \<Rightarrow> vec \<Rightarrow> vec \<Rightarrow> double" where
  "dot ar a b = dotLoop ar a b (Finite 0)"

record scored =
  score :: double
  ch :: chunk

text \<open>
  \<^verbatim>\<open>Array.prototype.sort\<close> with a comparator is a stable sort (ECMAScript 2019): an
  element stays before a later one unless the comparator puts it after, that is,
  unless the comparator's value for the two is positive. Insertion from the right end
  of the array does that. The first argument says when the comparator's value is
  positive. A comparator's value that is NaN counts as zero. (ECMAScript fixes the
  order only for a consistent comparator, one that is a total preorder and never
  returns NaN; for any other it leaves the order to the implementation.)
\<close>

fun insort_cmp :: "('a \<Rightarrow> 'a \<Rightarrow> bool) \<Rightarrow> 'a \<Rightarrow> 'a list \<Rightarrow> 'a list" where
  "insort_cmp after x [] = [x]"
| "insort_cmp after x (y # ys) = (if after x y then y # insort_cmp after x ys else x # y # ys)"

definition Array_sort :: "('a \<Rightarrow> 'a \<Rightarrow> bool) \<Rightarrow> 'a list \<Rightarrow> 'a list" where
  "Array_sort after xs = foldr (insort_cmp after) xs []"

text \<open>
  \<^verbatim>\<open>items.sort((x, y) => y.score - x.score).slice(0, k)\<close>, for a count \<open>k\<close>. The
  difference \<^verbatim>\<open>y.score - x.score\<close> is positive exactly when \<^verbatim>\<open>y.score > x.score\<close>:
  the difference of two doubles is zero only when they are equal, and NaN when one of
  them is NaN or both are the same infinity. On finite scores the comparator is
  consistent.
\<close>

definition topKByScore :: "scored list \<Rightarrow> nat \<Rightarrow> scored list" where
  "topKByScore items k = take k (Array_sort (\<lambda>x y. dgt (score y) (score x)) items)"

definition TOP_K :: nat where "TOP_K = 6"

text \<open>The loop of \<^verbatim>\<open>retrieveTopChunks\<close> that fills \<^verbatim>\<open>scored\<close>.\<close>

fun scoreChunks :: "arith \<Rightarrow> vec \<Rightarrow> chunk list \<Rightarrow> scored list" where
  "scoreChunks ar q [] = []"
| "scoreChunks ar q (c # cs) =
     (case embedding c of
        None \<Rightarrow> scoreChunks ar q cs
      | Some e \<Rightarrow> \<lparr>score = dot ar q e, ch = c\<rparr> # scoreChunks ar q cs)"

definition retrieveTopChunks :: "arith \<Rightarrow> vec \<Rightarrow> chunk list \<Rightarrow> scored list" where
  "retrieveTopChunks ar queryEmbedding cs = topKByScore (scoreChunks ar queryEmbedding cs) TOP_K"

section \<open>Citations\<close>

definition isDigit :: "jschar \<Rightarrow> bool" where
  "isDigit c \<longleftrightarrow> 0x30 \<le> c \<and> c \<le> 0x39"

text \<open>
  One attempt of \<^verbatim>\<open>/\[C(\d+)\]/\<close> at the head of a string: the captured digits and
  what follows the match. \<^verbatim>\<open>\d+\<close> is greedy, and giving digits back cannot help, since
  the code unit after them must be the closing bracket.
\<close>

definition matchAt :: "jsstring \<Rightarrow> (jsstring \<times> jsstring) option" where
  "matchAt s =
     (case s of
        a # b # rest \<Rightarrow>
          if a = 0x5B \<and> b = 0x43 then
            (let ds = takeWhile isDigit rest
             in case dropWhile isDigit rest of
                  x # r \<Rightarrow> if ds \<noteq> [] \<and> x = 0x5D then Some (ds, r) else None
                | [] \<Rightarrow> None)
          else None
      | _ \<Rightarrow> None)"

text \<open>
  The \<^verbatim>\<open>exec\<close> loop of a global regular expression: after a match the search goes on
  behind it, after a failure one code unit further.
\<close>

function citeLoop :: "(int \<Rightarrow> double) \<Rightarrow> jsstring \<Rightarrow> double list" where
  "citeLoop rnd [] = []"
| "citeLoop rnd (c # cs) =
     (case matchAt (c # cs) of
        Some (ds, r) \<Rightarrow> Number rnd ds # citeLoop rnd r
      | None \<Rightarrow> citeLoop rnd cs)"
  by pat_completeness auto
termination
proof (relation "measure (\<lambda>(rnd, s). length s)")
  fix rnd :: "int \<Rightarrow> double" and c :: jschar and cs x2 ds r
  assume m: "matchAt (c # cs) = Some x2" and x2: "(ds, r) = x2"
  from m x2 obtain rest x where "cs = 0x43 # rest" and "dropWhile isDigit rest = x # r"
    by (auto simp: matchAt_def Let_def split: list.splits if_splits)
  moreover have "length (dropWhile isDigit rest) \<le> length rest"
    by (rule length_dropWhile_le)
  ultimately show "((rnd, r), (rnd, c # cs)) \<in> measure (\<lambda>(rnd, s). length s)"
    by simp
qed simp_all

text \<open>The set \<^verbatim>\<open>used\<close>; the first argument is the rounding of \<^verbatim>\<open>Number\<close>.\<close>

definition parseUsedCitations :: "(int \<Rightarrow> double) \<Rightarrow> jsstring \<Rightarrow> double set" where
  "parseUsedCitations rnd answerText = set (citeLoop rnd answerText)"

section \<open>The state of the page\<close>

text \<open>
  The messages of the chat element. The two placeholder texts of \<^verbatim>\<open>ask\<close> are
  constructors of their own; \<^verbatim>\<open>asBubbleHtml\<close> only escapes the text for display.
\<close>

datatype role = User | Assistant

datatype bubble = Text jsstring | Thinking | Generating

text \<open>
  What \<^verbatim>\<open>ask\<close> puts into the \<^verbatim>\<open>.meta\<close> element of the answer: the warning of strict
  mode, the source line, and the panel of \<^verbatim>\<open>renderContextDetails\<close> (per retrieved
  chunk: its number, the used marker, the item).
\<close>

datatype metaItem =
    CitationWarning
  | SourceLine
  | ContextDetails "(nat \<times> bool \<times> scored) list"

record message =
  role :: role
  bubble :: bubble
  meta :: "metaItem list"

text \<open>The calls of \<^verbatim>\<open>alert\<close>, by the message shown.\<close>

datatype alert =
    NoCorpus            \<comment> \<open>ask: upload and index material first\<close>
  | GeneratorNotReady   \<comment> \<open>ask: load the local model first\<close>
  | ImportFormat        \<comment> \<open>importJSON: the JSON has the wrong format\<close>
  | ImportDone          \<comment> \<open>importJSON: done, now rebuild the embeddings\<close>

datatype status = Waiting | EmbedderLoading | EmbedderLoaded | Searching | Answering | Done

text \<open>
  Exceptions that leave a function (the promise of an async function rejects). The
  click handlers that call \<^verbatim>\<open>ask\<close> and \<^verbatim>\<open>importJSON\<close> catch the exception and report it
  with an alert of their own; the handlers are not part of the two functions.
\<close>

datatype error = EmbedError | GenerateError | StorageError | TypeError

text \<open>
  \<^verbatim>\<open>buildContext\<close> numbers the retrieved chunks from 1 and prints the document name,
  the page and the text of each; the model keeps the parts, not the printed string.
  The messages given to the generator are determined by the strict flag, the context
  and the question; the temperature is passed beside them.
\<close>

record contextEntry =
  cId :: nat
  ctxDocName :: "json option"
  ctxPage :: "json option"
  ctxText :: "json option"

record prompt =
  promptStrict :: bool
  promptContext :: "contextEntry list"
  promptQuestion :: jsstring
  temperature :: real

text \<open>
  \<^verbatim>\<open>state\<close>, the parts of the page that the functions below write, the two object
  stores of IndexedDB (by key), and a log of the calls to the embedding model and to
  the generator. The labels that only mirror other fields (statistics, document list,
  embedder label) are left out.
\<close>

record state =
  engine :: bool
  embedder :: bool
  docs :: "json list"
  chunks :: "chunk list"
  chat :: "message list"
  alerts :: "alert list"
  statusText :: status
  progress :: real
  idb_docs :: "json \<rightharpoonup> json"
  idb_chunks :: "json \<rightharpoonup> chunk"
  embedCalls :: "jsstring list list"
  llmCalls :: "prompt list"

text \<open>
  What lies outside the repository: whether loading the embedding pipeline succeeds,
  the rows the pipeline returns for a batch (\<open>None\<close>: the call rejects), the deltas
  the generator streams for a prompt, with whether the stream ends by throwing, the
  rounded sum and product of doubles, and the rounding of \<^verbatim>\<open>Number\<close>.
\<close>

record env =
  loadEmbedder :: bool
  runEmbedder :: "jsstring list \<Rightarrow> vec list option"
  runLLM :: "prompt \<Rightarrow> jsstring list \<times> bool"
  arithmetic :: arith
  roundNumber :: "int \<Rightarrow> double"

definition alert :: "alert \<Rightarrow> state \<Rightarrow> state" where
  "alert a st = st\<lparr>alerts := alerts st @ [a]\<rparr>"

definition addMessage :: "role \<Rightarrow> bubble \<Rightarrow> state \<Rightarrow> state" where
  "addMessage r b st = st\<lparr>chat := chat st @ [\<lparr>role = r, bubble = b, meta = []\<rparr>]\<rparr>"

definition setBubble :: "nat \<Rightarrow> bubble \<Rightarrow> state \<Rightarrow> state" where
  "setBubble i b st = st\<lparr>chat := (chat st)[i := (chat st ! i)\<lparr>bubble := b\<rparr>]\<rparr>"

definition setMeta :: "nat \<Rightarrow> metaItem list \<Rightarrow> state \<Rightarrow> state" where
  "setMeta i m st = st\<lparr>chat := (chat st)[i := (chat st ! i)\<lparr>meta := m\<rparr>]\<rparr>"

definition ensureEmbedder :: "env \<Rightarrow> state \<Rightarrow> (error + unit) \<times> state" where
  "ensureEmbedder env st =
     (if embedder st then (Inr (), st)
      else (let st1 = st\<lparr>statusText := EmbedderLoading, progress := 0.02\<rparr>
            in if loadEmbedder env
               then (Inr (), st1\<lparr>embedder := True, statusText := EmbedderLoaded, progress := 0\<rparr>)
               else (Inl EmbedError, st1)))"

definition embedTexts :: "env \<Rightarrow> jsstring list \<Rightarrow> state \<Rightarrow> (error + vec list) \<times> state" where
  "embedTexts env texts st =
     (case ensureEmbedder env st of
        (Inl e, st1) \<Rightarrow> (Inl e, st1)
      | (Inr _, st1) \<Rightarrow>
          (let st2 = st1\<lparr>embedCalls := embedCalls st1 @ [texts]\<rparr>
           in case runEmbedder env texts of
                None \<Rightarrow> (Inl EmbedError, st2)
              | Some vecs \<Rightarrow> (Inr vecs, st2)))"

definition getField :: "chunk \<Rightarrow> string \<Rightarrow> json option" where
  "getField c k = map_of (props c) (js k)"

text \<open>
  A template literal (\<^verbatim>\<open>${ch.page}\<close>) and a division (\<^verbatim>\<open>d.size / 1024\<close>) convert
  their operand to a primitive value. On a value from JSON that throws a TypeError
  exactly when the conversion meets an object with an own property \<^verbatim>\<open>toString\<close>: it
  hides \<^verbatim>\<open>Object.prototype.toString\<close> and cannot be called, and \<^verbatim>\<open>valueOf\<close> gives no
  primitive. An array is converted by \<^verbatim>\<open>join\<close>, which converts its elements. A
  property that is missing (\<^verbatim>\<open>undefined\<close>) converts.
\<close>

fun convertible :: "json \<Rightarrow> bool" where
  "convertible (JObj kvs) = (map_of kvs (js ''toString'') = None)"
| "convertible (JArr xs) = list_all convertible xs"
| "convertible _ = True"

fun converts :: "json option \<Rightarrow> bool" where
  "converts None = True"
| "converts (Some v) = convertible v"

text \<open>
  \<^verbatim>\<open>escapeHtml(s)\<close> is \<^verbatim>\<open>(s ?? "").replace(...)\<close>: it returns for a string, for
  \<^verbatim>\<open>null\<close> and for \<^verbatim>\<open>undefined\<close>, and throws a TypeError for every other value from
  JSON, none of which has a method \<^verbatim>\<open>replace\<close>.
\<close>

fun escapes :: "json option \<Rightarrow> bool" where
  "escapes None = True"
| "escapes (Some JNull) = True"
| "escapes (Some (JStr _)) = True"
| "escapes (Some _) = False"

text \<open>
  \<^verbatim>\<open>buildContext\<close> puts \<^verbatim>\<open>docName\<close>, \<^verbatim>\<open>page\<close> and \<^verbatim>\<open>text\<close> of every item into a
  template literal.
\<close>

fun buildContextFrom :: "nat \<Rightarrow> scored list \<Rightarrow> error + contextEntry list" where
  "buildContextFrom idx [] = Inr []"
| "buildContextFrom idx (item # items) =
     (if converts (getField (ch item) ''docName'') \<and> converts (getField (ch item) ''page'')
         \<and> converts (getField (ch item) ''text'')
      then (case buildContextFrom (idx + 1) items of
              Inl e \<Rightarrow> Inl e
            | Inr entries \<Rightarrow>
                Inr (\<lparr>cId = idx + 1, ctxDocName = getField (ch item) ''docName'',
                      ctxPage = getField (ch item) ''page'',
                      ctxText = getField (ch item) ''text''\<rparr> # entries))
      else Inl TypeError)"

definition buildContext :: "scored list \<Rightarrow> error + contextEntry list" where
  "buildContext scoredChunks = buildContextFrom 0 scoredChunks"

text \<open>
  \<^verbatim>\<open>renderContextDetails\<close> escapes \<^verbatim>\<open>docName\<close> and \<^verbatim>\<open>text\<close> of every item and puts
  \<^verbatim>\<open>page\<close> into a template literal; \<^verbatim>\<open>usedSet.has(idx + 1)\<close> looks the number up among
  the doubles of the set.
\<close>

fun contextRows ::
  "nat \<Rightarrow> double set \<Rightarrow> scored list \<Rightarrow> error + (nat \<times> bool \<times> scored) list" where
  "contextRows idx usedSet [] = Inr []"
| "contextRows idx usedSet (item # items) =
     (if escapes (getField (ch item) ''docName'') \<and> converts (getField (ch item) ''page'')
         \<and> escapes (getField (ch item) ''text'')
      then (case contextRows (idx + 1) usedSet items of
              Inl e \<Rightarrow> Inl e
            | Inr rows \<Rightarrow> Inr ((idx + 1, Finite (real (idx + 1)) \<in> usedSet, item) # rows))
      else Inl TypeError)"

definition renderContextDetails :: "scored list \<Rightarrow> double set \<Rightarrow> error + metaItem" where
  "renderContextDetails scoredChunks usedSet =
     (case contextRows 0 usedSet scoredChunks of
        Inl e \<Rightarrow> Inl e
      | Inr rows \<Rightarrow> Inr (ContextDetails rows))"

text \<open>
  \<^verbatim>\<open>const [qVec] = await embedTexts([questionText])\<close> takes the first row, and
  \<^verbatim>\<open>undefined\<close> when there is none; \<^verbatim>\<open>dot\<close> then throws at the first chunk that has
  an embedding.
\<close>

definition retrieveFor :: "arith \<Rightarrow> vec list \<Rightarrow> chunk list \<Rightarrow> error + scored list" where
  "retrieveFor ar vecs cs =
     (case vecs of
        qVec # _ \<Rightarrow> Inr (retrieveTopChunks ar qVec cs)
      | [] \<Rightarrow> if list_ex (\<lambda>c. embedding c \<noteq> None) cs then Inl TypeError else Inr [])"

text \<open>
  The \<^verbatim>\<open>for await\<close> loop over the stream: an empty delta is skipped, any other is
  appended to the answer and the bubble is rewritten.
\<close>

fun streamLoop :: "nat \<Rightarrow> jsstring list \<Rightarrow> jsstring \<Rightarrow> state \<Rightarrow> jsstring \<times> state" where
  "streamLoop el [] answer st = (answer, st)"
| "streamLoop el (delta # deltas) answer st =
     (if delta = [] then streamLoop el deltas answer st
      else streamLoop el deltas (answer @ delta) (setBubble el (Text (answer @ delta)) st))"

text \<open>
  \<^verbatim>\<open>ask\<close>. An exception leaves the state as it is at that point: the messages stay in
  the chat.
\<close>

definition ask :: "env \<Rightarrow> jsstring \<Rightarrow> bool \<Rightarrow> bool \<Rightarrow> state \<Rightarrow> (error + unit) \<times> state" where
  "ask env questionText strict showContext st =
     (if trim questionText = [] then (Inr (), st)
      else if length (chunks st) = 0 then (Inr (), alert NoCorpus st)
      else if \<not> engine st then (Inr (), alert GeneratorNotReady st)
      else
        (case ensureEmbedder env st of
           (Inl e, st1) \<Rightarrow> (Inl e, st1)
         | (Inr _, st1) \<Rightarrow>
             (let st2 = addMessage User (Text questionText) st1;
                  assistantEl = length (chat st2);
                  st3 = addMessage Assistant Thinking st2;
                  st4 = st3\<lparr>statusText := Searching, progress := 0.1\<rparr>
              in case embedTexts env [questionText] st4 of
                   (Inl e, st5) \<Rightarrow> (Inl e, st5)
                 | (Inr vecs, st5) \<Rightarrow>
                     (case retrieveFor (arithmetic env) vecs (chunks st5) of
                        Inl e \<Rightarrow> (Inl e, st5)
                      | Inr topChunks \<Rightarrow>
                          (case buildContext topChunks of
                             Inl e \<Rightarrow> (Inl e, st5)
                           | Inr context \<Rightarrow>
                               (let p = \<lparr>promptStrict = strict, promptContext = context,
                                         promptQuestion = questionText,
                                         temperature = (if strict then 0.2 else 0.5)\<rparr>;
                                    st6 = st5\<lparr>statusText := Answering, progress := 0.35\<rparr>;
                                    st7 = setBubble assistantEl Generating st6;
                                    st8 = st7\<lparr>llmCalls := llmCalls st7 @ [p]\<rparr>;
                                    (deltas, throws) = runLLM env p;
                                    (answer, st9) = streamLoop assistantEl deltas [] st8
                                in if throws then (Inl GenerateError, st9)
                                   else
                                     (let used = parseUsedCitations (roundNumber env) answer;
                                          items =
                                            (if strict \<and> used = {} then [CitationWarning] else [])
                                            @ [SourceLine];
                                          st10 = setMeta assistantEl items (st9\<lparr>progress := 0\<rparr>)
                                      in if showContext then
                                           (case renderContextDetails topChunks used of
                                              Inl e \<Rightarrow> (Inl e, st10)
                                            | Inr details \<Rightarrow>
                                                (Inr (), (setMeta assistantEl (items @ [details]) st10)
                                                           \<lparr>statusText := Done\<rparr>))
                                         else (Inr (), st10\<lparr>statusText := Done\<rparr>))))))))"

section \<open>Export and import\<close>




text \<open>
  Reading a property of a parsed JSON value: only an object made by \<^verbatim>\<open>JSON.parse\<close>
  has the properties the program asks for (\<^verbatim>\<open>docs\<close>, \<^verbatim>\<open>chunks\<close>, \<^verbatim>\<open>id\<close>); on every
  other value, and with \<^verbatim>\<open>?.\<close> on \<^verbatim>\<open>null\<close>, the result is \<^verbatim>\<open>undefined\<close>.
\<close>

fun getProp :: "json \<Rightarrow> jsstring \<Rightarrow> json option" where
  "getProp (JObj kvs) k = map_of kvs k"
| "getProp _ k = None"

fun truthy :: "json \<Rightarrow> bool" where
  "truthy JNull = False"
| "truthy (JBool b) = b"
| "truthy (JNum n) = (n \<noteq> 0)"
| "truthy (JStr s) = (s \<noteq> [])"
| "truthy (JArr _) = True"
| "truthy (JObj _) = True"

text \<open>
  \<^verbatim>\<open>push(...x)\<close> iterates \<open>x\<close>: an array gives its elements, a string its code points
  (a surrogate pair is one element), and nothing else that JSON can hold is iterable.
\<close>

fun codePoints :: "jsstring \<Rightarrow> jsstring list" where
  "codePoints [] = []"
| "codePoints [c] = [[c]]"
| "codePoints (c # d # cs) =
     (if 0xD800 \<le> c \<and> c \<le> 0xDBFF \<and> 0xDC00 \<le> d \<and> d \<le> 0xDFFF
      then [c, d] # codePoints cs else [c] # codePoints (d # cs))"

fun iterate :: "json \<Rightarrow> json list option" where
  "iterate (JArr xs) = Some xs"
| "iterate (JStr s) = Some (map JStr (codePoints s))"
| "iterate _ = None"

text \<open>
  \<^verbatim>\<open>({ ...x, embedding: null })\<close>: the own properties of \<open>x\<close> (an array and a string
  have their indices, the other primitives none), with \<^verbatim>\<open>embedding\<close> set to null.
\<close>

function showNat :: "nat \<Rightarrow> jsstring" where
  "showNat n = (if n < 10 then [of_nat (48 + n)]
                else showNat (n div 10) @ [of_nat (48 + n mod 10)])"
  by pat_completeness auto
termination
  by (relation "measure id") auto

declare showNat.simps [simp del]

fun ownProps :: "json \<Rightarrow> (jsstring \<times> json) list" where
  "ownProps (JObj kvs) = kvs"
| "ownProps (JArr xs) = zip (map showNat [0..<length xs]) xs"
| "ownProps (JStr s) = zip (map showNat [0..<length s]) (map (\<lambda>c. JStr [c]) s)"
| "ownProps _ = []"

definition rawChunk :: "json \<Rightarrow> chunk" where
  "rawChunk x = \<lparr>props = filter (\<lambda>(k, v). k \<noteq> js ''embedding'') (ownProps x), embedding = None\<rparr>"

text \<open>\<^verbatim>\<open>data.chunks.map(...)\<close>: only an array has \<^verbatim>\<open>map\<close>.\<close>

fun mapRawChunks :: "json \<Rightarrow> chunk list option" where
  "mapRawChunks (JArr xs) = Some (map rawChunk xs)"
| "mapRawChunks _ = None"

text \<open>
  Both object stores are created with \<^verbatim>\<open>keyPath: "id"\<close> and no key generator, so
  \<^verbatim>\<open>store.put(obj)\<close> throws unless \<^verbatim>\<open>obj.id\<close> is a valid key: a number, a string, or
  an array of valid keys. The puts made before the one that throws stay in the
  transaction. Failures of the storage backend itself are outside the model.
  \<open>putDocs\<close> and \<open>putChunks\<close> are \<^verbatim>\<open>dbPutMany\<close> on the store of documents and on the
  store of chunks.
\<close>

fun validKey :: "json \<Rightarrow> bool" where
  "validKey (JNum _) = True"
| "validKey (JStr _) = True"
| "validKey (JArr xs) = list_all validKey xs"
| "validKey _ = False"

fun putDocs :: "json list \<Rightarrow> (json \<rightharpoonup> json) \<Rightarrow> (error + unit) \<times> (json \<rightharpoonup> json)" where
  "putDocs [] m = (Inr (), m)"
| "putDocs (obj # objs) m =
     (case getProp obj (js ''id'') of
        None \<Rightarrow> (Inl StorageError, m)
      | Some k \<Rightarrow> if validKey k then putDocs objs (m(k \<mapsto> obj)) else (Inl StorageError, m))"

fun putChunks :: "chunk list \<Rightarrow> (json \<rightharpoonup> chunk) \<Rightarrow> (error + unit) \<times> (json \<rightharpoonup> chunk)" where
  "putChunks [] m = (Inr (), m)"
| "putChunks (obj # objs) m =
     (case getField obj ''id'' of
        None \<Rightarrow> (Inl StorageError, m)
      | Some k \<Rightarrow> if validKey k then putChunks objs (m(k \<mapsto> obj)) else (Inl StorageError, m))"

definition dbClearAll :: "state \<Rightarrow> state" where
  "dbClearAll st = st\<lparr>idb_docs := Map.empty, idb_chunks := Map.empty\<rparr>"

text \<open>
  \<^verbatim>\<open>renderDocs\<close> writes the document list, which the model does not keep, but it can
  throw: with documents in memory it reads \<^verbatim>\<open>d.id\<close> of each (a TypeError when \<open>d\<close> is
  \<^verbatim>\<open>null\<close>), divides \<^verbatim>\<open>d.size\<close> by 1024 and escapes \<^verbatim>\<open>d.name\<close>.
\<close>

definition docRenders :: "json \<Rightarrow> bool" where
  "docRenders d \<longleftrightarrow>
     d \<noteq> JNull \<and> converts (getProp d (js ''size'')) \<and> escapes (getProp d (js ''name''))"

definition renderDocs :: "state \<Rightarrow> error + unit" where
  "renderDocs st =
     (if length (docs st) = 0 then Inr ()
      else if list_all docRenders (docs st) then Inr () else Inl TypeError)"

text \<open>
  \<^verbatim>\<open>importJSON\<close>, from the parsed file on (a text that is not JSON makes \<^verbatim>\<open>JSON.parse\<close>
  throw before anything else happens).
\<close>

definition importJSON :: "json \<Rightarrow> state \<Rightarrow> (error + unit) \<times> state" where
  "importJSON data st =
     (case (getProp data (js ''docs''), getProp data (js ''chunks'')) of
        (Some d, Some c) \<Rightarrow>
          if \<not> truthy d \<or> \<not> truthy c then (Inr (), alert ImportFormat st)
          else
            (let st1 = (dbClearAll st)\<lparr>docs := [], chunks := [], chat := []\<rparr>
             in case iterate d of
                  None \<Rightarrow> (Inl TypeError, st1)
                | Some ds \<Rightarrow>
                    (let st2 = st1\<lparr>docs := docs st1 @ ds\<rparr>
                     in case mapRawChunks c of
                          None \<Rightarrow> (Inl TypeError, st2)
                        | Some rawChunks \<Rightarrow>
                            (let st3 = st2\<lparr>chunks := chunks st2 @ rawChunks\<rparr>
                             in case putDocs (docs st3) (idb_docs st3) of
                                  (Inl e, m) \<Rightarrow> (Inl e, st3\<lparr>idb_docs := m\<rparr>)
                                | (Inr _, m) \<Rightarrow>
                                    (let st4 = st3\<lparr>idb_docs := m\<rparr>
                                     in case putChunks rawChunks (idb_chunks st4) of
                                          (Inl e, m') \<Rightarrow> (Inl e, st4\<lparr>idb_chunks := m'\<rparr>)
                                        | (Inr _, m') \<Rightarrow>
                                            (let st5 = st4\<lparr>idb_chunks := m'\<rparr>
                                             in case renderDocs st5 of
                                                  Inl e \<Rightarrow> (Inl e, st5)
                                                | Inr _ \<Rightarrow> (Inr (), alert ImportDone st5))))))
      | _ \<Rightarrow> (Inr (), alert ImportFormat st))"

section \<open>Concrete inputs\<close>

text \<open>
  An arithmetic for the examples: IEEE 754 without rounding. It is the arithmetic of
  doubles wherever the exact result is a double, as with the small integers and the
  halves of the examples, and with NaN.
\<close>

fun exactAdd :: "double \<Rightarrow> double \<Rightarrow> double" where
  "exactAdd NaN _ = NaN"
| "exactAdd _ NaN = NaN"
| "exactAdd PosInf NegInf = NaN"
| "exactAdd NegInf PosInf = NaN"
| "exactAdd PosInf _ = PosInf"
| "exactAdd _ PosInf = PosInf"
| "exactAdd NegInf _ = NegInf"
| "exactAdd _ NegInf = NegInf"
| "exactAdd (Finite a) (Finite b) = Finite (a + b)"

definition signedInf :: "bool \<Rightarrow> double" where
  "signedInf positive = (if positive then PosInf else NegInf)"

fun exactMul :: "double \<Rightarrow> double \<Rightarrow> double" where
  "exactMul NaN _ = NaN"
| "exactMul _ NaN = NaN"
| "exactMul (Finite a) (Finite b) = Finite (a * b)"
| "exactMul (Finite a) PosInf = (if a = 0 then NaN else signedInf (0 < a))"
| "exactMul (Finite a) NegInf = (if a = 0 then NaN else signedInf (a < 0))"
| "exactMul PosInf (Finite b) = (if b = 0 then NaN else signedInf (0 < b))"
| "exactMul NegInf (Finite b) = (if b = 0 then NaN else signedInf (b < 0))"
| "exactMul PosInf PosInf = PosInf"
| "exactMul PosInf NegInf = NegInf"
| "exactMul NegInf PosInf = NegInf"
| "exactMul NegInf NegInf = PosInf"

definition exactArith :: arith where
  "exactArith = \<lparr>fadd = exactAdd, fmul = exactMul\<rparr>"

text \<open>
  The double nearest to a positive integer, ties to the even mantissa of 53 bits, and
  Infinity from \<open>2^1024\<close> on.
\<close>

definition nearestDouble :: "int \<Rightarrow> double" where
  "nearestDouble n =
     (let e = nat (bitlen n - 53);
          q = n div 2 ^ e;
          r = n mod 2 ^ e;
          m = (if 2 ^ e < 2 * r \<or> (2 * r = 2 ^ e \<and> odd q) then q + 1 else q)
      in if 2 ^ 1024 \<le> m * 2 ^ e then PosInf else Finite (of_int (m * 2 ^ e)))"

text \<open>
  A page after an import: one document, one chunk without an embedding, the generator
  loaded; and collaborators that work (every text is embedded as the vector \<open>[1]\<close>,
  the generator streams one delta).
\<close>

definition importedChunk :: chunk where
  "importedChunk =
     \<lparr>props = [(js ''id'', JStr (js ''d1|p1|c0'')), (js ''docId'', JStr (js ''d1'')),
               (js ''docName'', JStr (js ''a.txt'')), (js ''page'', JNum 1),
               (js ''text'', JStr (js ''some text of the document''))],
      embedding = None\<rparr>"

definition importedDoc :: json where
  "importedDoc = JObj [(js ''id'', JStr (js ''d1'')), (js ''name'', JStr (js ''a.txt''))]"

definition importedState :: state where
  "importedState =
     \<lparr>engine = True, embedder = True, docs = [importedDoc], chunks = [importedChunk],
      chat = [], alerts = [], statusText = Waiting, progress = 0,
      idb_docs = [JStr (js ''d1'') \<mapsto> importedDoc],
      idb_chunks = [JStr (js ''d1|p1|c0'') \<mapsto> importedChunk],
      embedCalls = [], llmCalls = []\<rparr>"

definition emptyState :: state where
  "emptyState =
     \<lparr>engine = True, embedder = True, docs = [], chunks = [],
      chat = [], alerts = [], statusText = Waiting, progress = 0,
      idb_docs = Map.empty, idb_chunks = Map.empty, embedCalls = [], llmCalls = []\<rparr>"

definition workingEnv :: env where
  "workingEnv =
     \<lparr>loadEmbedder = True,
      runEmbedder = (\<lambda>texts. Some (map (\<lambda>_. [Finite 1]) texts)),
      runLLM = (\<lambda>p. ([js ''Answer [C1]''], False)),
      arithmetic = exactArith,
      roundNumber = nearestDouble\<rparr>"

text \<open>
  Four chunks, the second without an embedding; for the query \<open>[1, 1]\<close> the scores of
  the others are 3/2, 2 and 2. And two chunks of which the first has a NaN in its
  embedding.
\<close>

definition chunkA :: chunk where
  "chunkA = \<lparr>props = [(js ''id'', JStr (js ''a''))], embedding = Some [Finite (1 / 2), Finite 1]\<rparr>"
definition chunkB :: chunk where
  "chunkB = \<lparr>props = [(js ''id'', JStr (js ''b''))], embedding = None\<rparr>"
definition chunkC :: chunk where
  "chunkC = \<lparr>props = [(js ''id'', JStr (js ''c''))], embedding = Some [Finite 1, Finite 1]\<rparr>"
definition chunkD :: chunk where
  "chunkD = \<lparr>props = [(js ''id'', JStr (js ''d''))], embedding = Some [Finite 2]\<rparr>"

definition nanChunk :: chunk where
  "nanChunk = \<lparr>props = [(js ''id'', JStr (js ''n''))], embedding = Some [NaN]\<rparr>"
definition oneChunk :: chunk where
  "oneChunk = \<lparr>props = [(js ''id'', JStr (js ''o''))], embedding = Some [Finite 1]\<rparr>"

text \<open>
  The number of code units of a string that are not whitespace, and a text of 31 code
  units of which 16 are not whitespace.
\<close>

definition nonWhiteCount :: "jsstring \<Rightarrow> nat" where
  "nonWhiteCount s = length (filter (\<lambda>c. \<not> isWhite c) s)"

definition spacedText :: jsstring where
  "spacedText = js ''a a a a a a a a a a a a a a a a''"


definition nonArrayPayload :: json where
  "nonArrayPayload = JObj [(js ''version'', JNum 1), (js ''docs'', JObj []), (js ''chunks'', JArr [])]"






text \<open>
  A payload whose only document has a number as \<^verbatim>\<open>name\<close>; and a page whose only
  chunk has an embedding and a number as \<^verbatim>\<open>text\<close>.
\<close>

definition numberNameDoc :: json where
  "numberNameDoc = JObj [(js ''id'', JStr (js ''d2'')), (js ''name'', JNum 5)]"

definition numberNamePayload :: json where
  "numberNamePayload = JObj [(js ''docs'', JArr [numberNameDoc]), (js ''chunks'', JArr [])]"

definition numberTextChunk :: chunk where
  "numberTextChunk =
     \<lparr>props = [(js ''id'', JStr (js ''d1|p1|c0'')), (js ''docName'', JStr (js ''a.txt'')),
               (js ''page'', JNum 1), (js ''text'', JNum 5)],
      embedding = Some [Finite 1]\<rparr>"

definition numberTextState :: state where
  "numberTextState = importedState\<lparr>chunks := [numberTextChunk]\<rparr>"

text \<open>
  An element of the \<^verbatim>\<open>docs\<close> array, and one of the \<^verbatim>\<open>chunks\<close> array once it is a
  chunk in memory, can be stored: its \<^verbatim>\<open>id\<close> is a valid key.
\<close>

definition docHasKey :: "json \<Rightarrow> bool" where
  "docHasKey x = (case getProp x (js ''id'') of None \<Rightarrow> False | Some k \<Rightarrow> validKey k)"


text \<open>
  The literal \<^verbatim>\<open>"[C" + ds + "]"\<close> for a string \<open>ds\<close>, and for a natural number, with
  its decimal digits (which is how string concatenation prints an integer below
  \<open>10^21\<close>).
\<close>

definition citationLiteral :: "jsstring \<Rightarrow> jsstring" where
  "citationLiteral ds = [0x5B, 0x43] @ ds @ [0x5D]"

definition citationOf :: "nat \<Rightarrow> jsstring" where
  "citationOf n = js ''[C'' @ showNat n @ js '']''"

text \<open>An occurrence of a citation with the digits \<open>ds\<close> in \<open>s\<close>.\<close>

definition cited :: "jsstring \<Rightarrow> jsstring \<Rightarrow> bool" where
  "cited s ds \<longleftrightarrow> ds \<noteq> [] \<and> list_all isDigit ds \<and> sublist (citationLiteral ds) s"

text \<open>An answer with two citations and four near misses.\<close>

definition citedAnswer :: jsstring where
  "citedAnswer = js ''see [C2] and [C07], not [C], [C3x or [c4]''"

text \<open>
  What a normalized text looks like: no tab and no two spaces in a row; no carriage
  return right before a line feed.
\<close>

definition NoDoubleSpace :: "jsstring \<Rightarrow> bool" where
  "NoDoubleSpace s \<longleftrightarrow> TAB \<notin> set s \<and> successively (\<lambda>a b. \<not> (a = SP \<and> b = SP)) s"

definition NoCRLF :: "jsstring \<Rightarrow> bool" where
  "NoCRLF s \<longleftrightarrow> successively (\<lambda>a b. \<not> (a = CR \<and> b = LF)) s"

text \<open>
  A text with a NUL, runs of blanks, Windows line ends, three line ends in a row and
  whitespace at both ends; and a text with a carriage return before a Windows line end.
\<close>

definition windowsText :: jsstring where
  "windowsText = [0x20, 0x61, 0x00, 0x09, 0x20, 0x62, 0x0D, 0x0A, 0x0D, 0x0A, 0x0D, 0x0A, 0x63, 0x0A]"

definition strayCRText :: jsstring where
  "strayCRText = [0x61, 0x0D, 0x0D, 0x0A, 0x62]"

section \<open>The question guard of ask\<close>

lemma trim_all_white:
  assumes "list_all isWhite s"
  shows "trim s = []"
proof -
  from assms have d: "dropWhile isWhite s = []"
    by (simp add: list_all_iff)
  show ?thesis
    unfolding trim_def d by simp
qed

text \<open>
  C10. A call of \<^verbatim>\<open>ask\<close> whose question is empty or has only whitespace returns at
  once and leaves the whole state as it was: no message in the chat, no alert, no call
  of the embedder or the generator logged, the stores untouched.
\<close>

theorem ask_blank_question_noop:
  assumes "list_all isWhite questionText"
  shows "ask env questionText strict showContext st = (Inr (), st)"
  using assms by (simp add: ask_def trim_all_white)

theorem ask_blank_question_noop_witness:
  "list_all isWhite (js '' '') \<and>
   ask workingEnv (js '' '') True True importedState = (Inr (), importedState)"
proof -
  have w: "list_all isWhite (js '' '')"
    by (simp add: js_def isWhite_def)
  from ask_blank_question_noop[OF w] w show ?thesis
    by simp
qed

lemma ensureEmbedder_keeps:
  assumes "ensureEmbedder env st = (r, st')"
  shows "alerts st' = alerts st" "chat st' = chat st" "chunks st' = chunks st"
    "r = Inr () \<longleftrightarrow> embedder st \<or> loadEmbedder env"
  using assms by (auto simp: ensureEmbedder_def Let_def split: if_splits)

lemma embedTexts_keeps:
  assumes "embedTexts env texts st = (r, st')"
  shows "alerts st' = alerts st" "chat st' = chat st" "chunks st' = chunks st"
  using assms
  by (auto simp: embedTexts_def Let_def split: prod.splits sum.splits option.splits
      dest: ensureEmbedder_keeps)

lemma setBubble_keeps:
  "alerts (setBubble i b st) = alerts st"
  "length (chat (setBubble i b st)) = length (chat st)"
  "n \<le> i \<Longrightarrow> take n (chat (setBubble i b st)) = take n (chat st)"
  by (simp_all add: setBubble_def)

lemma setMeta_keeps:
  "alerts (setMeta i m st) = alerts st"
  "length (chat (setMeta i m st)) = length (chat st)"
  "n \<le> i \<Longrightarrow> take n (chat (setMeta i m st)) = take n (chat st)"
  by (simp_all add: setMeta_def)

lemma streamLoop_keeps:
  assumes "streamLoop el deltas a st = (answer, st')"
  shows "alerts st' = alerts st" "length (chat st') = length (chat st)"
    "n \<le> el \<Longrightarrow> take n (chat st') = take n (chat st)"
  using assms
  by (induction deltas arbitrary: a st) (auto simp: setBubble_keeps split: if_splits)

lemma ask_proceeds:
  assumes q: "trim questionText \<noteq> []" and c: "chunks st \<noteq> []" and g: "engine st"
    and e: "embedder st \<or> loadEmbedder env"
  shows "alerts (snd (ask env questionText strict showContext st)) = alerts st
      \<and> length (chat (snd (ask env questionText strict showContext st))) = length (chat st) + 2
      \<and> take (Suc (length (chat st))) (chat (snd (ask env questionText strict showContext st)))
           = chat st @ [\<lparr>role = User, bubble = Text questionText, meta = []\<rparr>]"
proof -
  let ?ask = "ask env questionText strict showContext st"
  obtain r st1 where e1: "ensureEmbedder env st = (r, st1)"
    by (cases "ensureEmbedder env st")
  from ensureEmbedder_keeps[OF e1] e have r: "r = Inr ()" and k1: "alerts st1 = alerts st"
    "chat st1 = chat st"
    by simp_all
  define u where "u = \<lparr>role = User, bubble = Text questionText, meta = []\<rparr>"
  define n where "n = Suc (length (chat st))"
  define st4 where "st4 = (addMessage Assistant Thinking (addMessage User (Text questionText) st1))
                            \<lparr>statusText := Searching, progress := 0.1\<rparr>"
  have k4: "alerts st4 = alerts st" "length (chat st4) = length (chat st) + 2"
    "take n (chat st4) = chat st @ [u]"
    by (simp_all add: st4_def addMessage_def k1 n_def u_def)
  have el: "length (chat (addMessage User (Text questionText) st1)) = n"
    by (simp add: addMessage_def k1 n_def)
  define tail :: "vec list \<Rightarrow> state \<Rightarrow> (error + unit) \<times> state" where
    "tail = (\<lambda>vecs st5.
       case retrieveFor (arithmetic env) vecs (chunks st5) of
         Inl e \<Rightarrow> (Inl e, st5)
       | Inr topChunks \<Rightarrow>
           (case buildContext topChunks of
              Inl e \<Rightarrow> (Inl e, st5)
            | Inr context \<Rightarrow>
                (let p = \<lparr>promptStrict = strict, promptContext = context,
                          promptQuestion = questionText,
                          temperature = (if strict then 0.2 else 0.5)\<rparr>;
                     st6 = st5\<lparr>statusText := Answering, progress := 0.35\<rparr>;
                     st7 = setBubble n Generating st6;
                     st8 = st7\<lparr>llmCalls := llmCalls st7 @ [p]\<rparr>;
                     (deltas, throws) = runLLM env p;
                     (answer, st9) = streamLoop n deltas [] st8
                 in if throws then (Inl GenerateError, st9)
                    else
                      (let used = parseUsedCitations (roundNumber env) answer;
                           items =
                             (if strict \<and> used = {} then [CitationWarning] else [])
                             @ [SourceLine];
                           st10 = setMeta n items (st9\<lparr>progress := 0\<rparr>)
                       in if showContext then
                            (case renderContextDetails topChunks used of
                               Inl e \<Rightarrow> (Inl e, st10)
                             | Inr details \<Rightarrow>
                                 (Inr (), (setMeta n (items @ [details]) st10)
                                            \<lparr>statusText := Done\<rparr>))
                          else (Inr (), st10\<lparr>statusText := Done\<rparr>)))))"
  have unf: "?ask = (case embedTexts env [questionText] st4 of
                   (Inl e, st5) \<Rightarrow> (Inl e, st5)
                 | (Inr vecs, st5) \<Rightarrow> tail vecs st5)"
    using q c g unfolding ask_def tail_def st4_def e1 r prod.case sum.case Let_def el
    by simp
  have T: "alerts (snd (tail vecs st5)) = alerts st5
         \<and> length (chat (snd (tail vecs st5))) = length (chat st5)
         \<and> take n (chat (snd (tail vecs st5))) = take n (chat st5)" for vecs st5
  proof (cases "retrieveFor (arithmetic env) vecs (chunks st5)")
    case (Inl err)
    then show ?thesis by (simp add: tail_def)
  next
    case rf: (Inr topChunks)
    show ?thesis
    proof (cases "buildContext topChunks")
      case (Inl err)
      with rf show ?thesis by (simp add: tail_def)
    next
      case bc: (Inr ctx)
      define p where "p = \<lparr>promptStrict = strict, promptContext = ctx,
                             promptQuestion = questionText,
                             temperature = (if strict then 0.2 else 0.5)\<rparr>"
      define st8 where "st8 =
        (setBubble n Generating (st5\<lparr>statusText := Answering, progress := 0.35\<rparr>))
          \<lparr>llmCalls := llmCalls (setBubble n Generating
                                   (st5\<lparr>statusText := Answering, progress := 0.35\<rparr>)) @ [p]\<rparr>"
      obtain deltas throws where l: "runLLM env p = (deltas, throws)"
        by (cases "runLLM env p")
      obtain answer st9 where sl: "streamLoop n deltas [] st8 = (answer, st9)"
        by (cases "streamLoop n deltas [] st8")
      have k8: "alerts st8 = alerts st5" "length (chat st8) = length (chat st5)"
        "take n (chat st8) = take n (chat st5)"
        by (simp_all add: st8_def setBubble_keeps)
      from streamLoop_keeps(1,2)[OF sl] streamLoop_keeps(3)[OF sl order_refl] k8
      have k9: "alerts st9 = alerts st5" "length (chat st9) = length (chat st5)"
        "take n (chat st9) = take n (chat st5)"
        by simp_all
      note l' = l[unfolded p_def] and sl' = sl[unfolded st8_def p_def]
      have "tail vecs st5 =
        (if throws then (Inl GenerateError, st9)
         else if showContext then
           (case renderContextDetails topChunks (parseUsedCitations (roundNumber env) answer) of
              Inl e \<Rightarrow>
                (Inl e, setMeta n ((if strict \<and> parseUsedCitations (roundNumber env) answer = {}
                                    then [CitationWarning] else []) @ [SourceLine])
                          (st9\<lparr>progress := 0\<rparr>))
            | Inr details \<Rightarrow>
                (Inr (), (setMeta n (((if strict \<and> parseUsedCitations (roundNumber env) answer = {}
                                       then [CitationWarning] else []) @ [SourceLine]) @ [details])
                           (setMeta n ((if strict \<and> parseUsedCitations (roundNumber env) answer = {}
                                        then [CitationWarning] else []) @ [SourceLine])
                              (st9\<lparr>progress := 0\<rparr>)))\<lparr>statusText := Done\<rparr>))
         else (Inr (), (setMeta n ((if strict \<and> parseUsedCitations (roundNumber env) answer = {}
                                    then [CitationWarning] else []) @ [SourceLine])
                          (st9\<lparr>progress := 0\<rparr>))\<lparr>statusText := Done\<rparr>))"
        unfolding tail_def rf bc sum.case Let_def l' prod.case sl' ..
      then show ?thesis
        using k9 by (simp add: setMeta_keeps split: sum.splits)
    qed
  qed
  obtain r5 st5 where e5: "embedTexts env [questionText] st4 = (r5, st5)"
    by (cases "embedTexts env [questionText] st4")
  from embedTexts_keeps[OF e5] k4 have k5: "alerts st5 = alerts st"
    "length (chat st5) = length (chat st) + 2" "take n (chat st5) = chat st @ [u]"
    by simp_all
  have "alerts (snd ?ask) = alerts st \<and> length (chat (snd ?ask)) = length (chat st) + 2
      \<and> take n (chat (snd ?ask)) = chat st @ [u]"
  proof (cases r5)
    case (Inl err)
    with unf e5 have "?ask = (Inl err, st5)" by simp
    with k5 show ?thesis by simp
  next
    case (Inr vecs)
    with unf e5 have "?ask = tail vecs st5" by simp
    with k5 T[of vecs st5] show ?thesis by simp
  qed
  then show ?thesis
    by (simp add: n_def u_def)
qed

lemma ask_embedder_fails:
  assumes "trim questionText \<noteq> []" and "chunks st \<noteq> []" and "engine st"
    and "\<not> (embedder st \<or> loadEmbedder env)"
  shows "ask env questionText strict showContext st
           = (Inl EmbedError, st\<lparr>statusText := EmbedderLoading, progress := 0.02\<rparr>)"
  using assms by (simp add: ask_def ensureEmbedder_def)

text \<open>
  C1, as the code has it. The guard of \<^verbatim>\<open>ask\<close> looks at the number of chunks, not at
  their embeddings. With a question that is not blank and an empty chunk list, \<^verbatim>\<open>ask\<close>
  shows the no-corpus alert and returns, and nothing but the list of alerts changes;
  in particular the chat keeps its messages. With a chunk list that is not empty,
  whether or not any chunk has an embedding, the no-corpus alert is never shown: the
  only alert that \<^verbatim>\<open>ask\<close> can add is the one of the generator that is not loaded, for
  a question that is not blank. And when the question is not blank, the generator is
  loaded and the embedder is loaded or loads, \<^verbatim>\<open>ask\<close> goes on: it appends the user
  message and the answer bubble to the chat.
\<close>

theorem ask_no_chunks_alerts:
  "(trim questionText \<noteq> [] \<and> chunks st = [] \<longrightarrow>
      ask env questionText strict showContext st
        = (Inr (), st\<lparr>alerts := alerts st @ [NoCorpus]\<rparr>)
      \<and> chat (snd (ask env questionText strict showContext st)) = chat st) \<and>
   (chunks st \<noteq> [] \<longrightarrow>
      alerts (snd (ask env questionText strict showContext st))
        = (if trim questionText \<noteq> [] \<and> \<not> engine st then alerts st @ [GeneratorNotReady]
           else alerts st)) \<and>
   (trim questionText \<noteq> [] \<and> chunks st \<noteq> [] \<and> engine st \<and> (embedder st \<or> loadEmbedder env) \<longrightarrow>
      length (chat (snd (ask env questionText strict showContext st))) = length (chat st) + 2 \<and>
      take (Suc (length (chat st))) (chat (snd (ask env questionText strict showContext st)))
        = chat st @ [\<lparr>role = User, bubble = Text questionText, meta = []\<rparr>])"
proof -
  let ?ask = "ask env questionText strict showContext st"
  have A: "?ask = (Inr (), st\<lparr>alerts := alerts st @ [NoCorpus]\<rparr>) \<and> chat (snd ?ask) = chat st"
    if "trim questionText \<noteq> []" "chunks st = []"
    using that by (simp add: ask_def alert_def)
  have B: "alerts (snd ?ask)
             = (if trim questionText \<noteq> [] \<and> \<not> engine st then alerts st @ [GeneratorNotReady]
                else alerts st)"
    if c: "chunks st \<noteq> []"
  proof (cases "trim questionText = []")
    case True
    then show ?thesis by (simp add: ask_def)
  next
    case q: False
    show ?thesis
    proof (cases "engine st")
      case False
      with q c show ?thesis by (simp add: ask_def alert_def)
    next
      case g: True
      show ?thesis
      proof (cases "embedder st \<or> loadEmbedder env")
        case True
        from ask_proceeds[OF q c g True] g show ?thesis by simp
      next
        case False
        from ask_embedder_fails[OF q c g False] g show ?thesis by simp
      qed
    qed
  qed
  have C: "length (chat (snd ?ask)) = length (chat st) + 2 \<and>
           take (Suc (length (chat st))) (chat (snd ?ask))
             = chat st @ [\<lparr>role = User, bubble = Text questionText, meta = []\<rparr>]"
    if "trim questionText \<noteq> []" "chunks st \<noteq> []" "engine st" "embedder st \<or> loadEmbedder env"
    using ask_proceeds[OF that] by simp
  from A B C show ?thesis
    by blast
qed

lemma trim_x: "trim (js ''x'') = js ''x''"
  by (simp add: trim_def js_def isWhite_def)

theorem ask_no_chunks_alerts_witness:
  "trim (js ''x'') \<noteq> [] \<and> chunks emptyState = [] \<and>
   ask workingEnv (js ''x'') False False emptyState
     = (Inr (), emptyState\<lparr>alerts := [NoCorpus]\<rparr>) \<and>
   chunks importedState \<noteq> [] \<and> engine importedState \<and> embedder importedState \<and>
   alerts (snd (ask workingEnv (js ''x'') False False importedState)) = alerts importedState \<and>
   take (Suc (length (chat importedState)))
        (chat (snd (ask workingEnv (js ''x'') False False importedState)))
     = chat importedState @ [\<lparr>role = User, bubble = Text (js ''x''), meta = []\<rparr>]"
proof -
  have t: "trim (js ''x'') \<noteq> []"
    by (simp add: trim_x) (simp add: js_def)
  have c: "chunks emptyState = []"
    by (simp add: emptyState_def)
  have i: "chunks importedState \<noteq> []" "engine importedState" "embedder importedState"
    by (simp_all add: importedState_def)
  from ask_no_chunks_alerts[of "js ''x''" emptyState workingEnv False False] t c
  have a: "ask workingEnv (js ''x'') False False emptyState
             = (Inr (), emptyState\<lparr>alerts := [NoCorpus]\<rparr>)"
    by (simp add: emptyState_def)
  note inst = ask_no_chunks_alerts[of "js ''x''" importedState workingEnv False False]
  from inst t i
  have b: "alerts (snd (ask workingEnv (js ''x'') False False importedState))
             = alerts importedState"
    by simp
  from inst t i
  have d: "take (Suc (length (chat importedState)))
             (chat (snd (ask workingEnv (js ''x'') False False importedState)))
           = chat importedState @ [\<lparr>role = User, bubble = Text (js ''x''), meta = []\<rparr>]"
    by blast
  from t c a i b d show ?thesis
    by blast
qed

text \<open>
  C1 as stated fails after an import: the only chunk has no embedding, the generator is
  loaded, and \<^verbatim>\<open>ask\<close> shows no alert, appends the user message and the answer to the
  chat, and calls the embedder and the generator.
\<close>

theorem ask_unindexed_chunks_counterexample:
  "map embedding (chunks importedState) = [None] \<and>
   fst (ask workingEnv (js ''x'') False False importedState) = Inr () \<and>
   alerts (snd (ask workingEnv (js ''x'') False False importedState)) = [] \<and>
   chat importedState = [] \<and>
   chat (snd (ask workingEnv (js ''x'') False False importedState))
     = [\<lparr>role = User, bubble = Text (js ''x''), meta = []\<rparr>,
        \<lparr>role = Assistant, bubble = Text (js ''Answer [C1]''), meta = [SourceLine]\<rparr>] \<and>
   embedCalls (snd (ask workingEnv (js ''x'') False False importedState)) = [[js ''x'']] \<and>
   length (llmCalls (snd (ask workingEnv (js ''x'') False False importedState))) = 1"
  by code_simp

text \<open>
  With the context panel switched on, a retrieved chunk whose \<^verbatim>\<open>text\<close> is a number
  makes \<^verbatim>\<open>renderContextDetails\<close> throw after the answer is complete; without the
  panel the same call succeeds.
\<close>

lemma ask_number_text_throws:
  "fst (ask workingEnv (js ''x'') False True numberTextState) = Inl TypeError \<and>
   chat (snd (ask workingEnv (js ''x'') False True numberTextState))
     = [\<lparr>role = User, bubble = Text (js ''x''), meta = []\<rparr>,
        \<lparr>role = Assistant, bubble = Text (js ''Answer [C1]''), meta = [SourceLine]\<rparr>] \<and>
   fst (ask workingEnv (js ''x'') False False numberTextState) = Inr ()"
  by code_simp

section \<open>Retrieval returns the best chunks, in a stable order\<close>

lemma dotLoop_foldl:
  "dotLoop ar a b s = foldl (\<lambda>s (x, y). fadd ar s (fmul ar x y)) s (zip a b)"
  by (induction ar a b s rule: dotLoop.induct) simp_all

lemma dot_foldl: "dot ar a b = foldl (\<lambda>s (x, y). fadd ar s (fmul ar x y)) (Finite 0) (zip a b)"
  by (simp add: dot_def dotLoop_foldl)

text \<open>Where nothing is rounded, \<^verbatim>\<open>dot\<close> is the dot product of the common entries.\<close>

lemma dotLoop_exact:
  "dotLoop exactArith (map Finite a) (map Finite b) (Finite s)
     = Finite (s + (\<Sum>(x, y) \<leftarrow> zip a b. x * y))"
proof (induction a arbitrary: b s)
  case Nil
  then show ?case by simp
next
  case (Cons x a)
  then show ?case
    by (cases b) (simp_all add: exactArith_def)
qed

lemma dot_exact:
  "dot exactArith (map Finite a) (map Finite b) = Finite (\<Sum>(x, y) \<leftarrow> zip a b. x * y)"
  by (simp add: dot_def dotLoop_exact)

lemma insort_cmp_set: "set (insort_cmp after x ys) = insert x (set ys)"
  by (induction ys) auto

lemma insort_cmp_length: "length (insort_cmp after x ys) = Suc (length ys)"
  by (induction ys) auto

lemma Array_sort_set: "set (Array_sort after xs) = set xs"
  by (induction xs) (simp_all add: Array_sort_def insort_cmp_set)

lemma Array_sort_length: "length (Array_sort after xs) = length xs"
  by (induction xs) (simp_all add: Array_sort_def insort_cmp_length)

lemma dgt_finite: "isFinite a \<Longrightarrow> isFinite b \<Longrightarrow> dgt a b \<longleftrightarrow> realOf b < realOf a"
  by (cases a; cases b) simp_all

lemma dge_finite: "isFinite a \<Longrightarrow> isFinite b \<Longrightarrow> dge a b \<longleftrightarrow> realOf b \<le> realOf a"
  by (cases a; cases b) (auto simp: dge_def)

lemma finite_eq: "isFinite a \<Longrightarrow> a = s \<longleftrightarrow> isFinite s \<and> realOf a = realOf s"
  by (cases a; cases s) simp_all

text \<open>On finite scores the sort is the stable insertion sort by the key \<open>- score\<close>.\<close>

lemma insort_cmp_score:
  assumes "isFinite (score x)" and "\<forall>y \<in> set ys. isFinite (score y)"
  shows "insort_cmp (\<lambda>x y. dgt (score y) (score x)) x ys
           = insort_key (\<lambda>x. - realOf (score x)) x ys"
  using assms by (induction ys) (auto simp: dgt_finite)

lemma Array_sort_score:
  assumes "\<forall>x \<in> set xs. isFinite (score x)"
  shows "Array_sort (\<lambda>x y. dgt (score y) (score x)) xs = sort_key (\<lambda>x. - realOf (score x)) xs"
  using assms
proof (induction xs)
  case Nil
  then show ?case by (simp add: Array_sort_def)
next
  case (Cons x xs)
  then have IH: "Array_sort (\<lambda>x y. dgt (score y) (score x)) xs
                   = sort_key (\<lambda>x. - realOf (score x)) xs"
    by simp
  have "\<forall>y \<in> set (sort_key (\<lambda>x. - realOf (score x)) xs). isFinite (score y)"
    using Cons.prems by simp
  with Cons.prems have "insort_cmp (\<lambda>x y. dgt (score y) (score x)) x
                          (sort_key (\<lambda>x. - realOf (score x)) xs)
                        = insort_key (\<lambda>x. - realOf (score x)) x
                            (sort_key (\<lambda>x. - realOf (score x)) xs)"
    by (intro insort_cmp_score) simp_all
  with IH show ?case
    by (simp add: Array_sort_def sort_key_def)
qed

lemma scoreChunks_ch: "map ch (scoreChunks ar q cs) = filter (\<lambda>c. embedding c \<noteq> None) cs"
  by (induction cs) (auto split: option.splits)

lemma scoreChunks_score:
  "it \<in> set (scoreChunks ar q cs) \<Longrightarrow>
     ch it \<in> set cs \<and> (\<exists>e. embedding (ch it) = Some e \<and> score it = dot ar q e)"
  by (induction cs) (auto split: option.splits)

lemma topKByScore_length: "length (topKByScore items k) = min k (length items)"
  by (simp add: topKByScore_def Array_sort_length min.commute)

lemma topKByScore_set: "set (topKByScore items k) \<subseteq> set items"
proof -
  have "set (take k (Array_sort (\<lambda>x y. dgt (score y) (score x)) items))
          \<subseteq> set (Array_sort (\<lambda>x y. dgt (score y) (score x)) items)"
    by (rule set_take_subset)
  then show ?thesis
    by (simp add: topKByScore_def Array_sort_set)
qed

lemma sorted_finite:
  assumes "\<forall>x \<in> set items. isFinite (score x)"
  shows "sorted_wrt (\<lambda>a b. dge (score a) (score b))
           (Array_sort (\<lambda>x y. dgt (score y) (score x)) items)"
proof -
  let ?f = "\<lambda>x. - realOf (score x)"
  have "sorted (map ?f (sort_key ?f items))"
    by (rule sorted_sort_key)
  then have "sorted_wrt (\<lambda>a b. realOf (score b) \<le> realOf (score a)) (sort_key ?f items)"
    by (simp add: sorted_map)
  moreover have "dge (score a) (score b)"
    if "a \<in> set (sort_key ?f items)" "b \<in> set (sort_key ?f items)"
      "realOf (score b) \<le> realOf (score a)" for a b
    using that assms by (simp add: dge_finite)
  ultimately have "sorted_wrt (\<lambda>a b. dge (score a) (score b)) (sort_key ?f items)"
    by (rule sorted_wrt_mono_rel[rotated])
  then show ?thesis
    by (simp add: Array_sort_score[OF assms])
qed

lemma topKByScore_sorted:
  assumes "\<forall>x \<in> set items. isFinite (score x)"
  shows "sorted_wrt (\<lambda>a b. dge (score a) (score b)) (topKByScore items k)"
  using sorted_finite[OF assms] by (simp add: topKByScore_def sorted_wrt_take)

lemma topKByScore_best:
  assumes "\<forall>x \<in> set items. isFinite (score x)"
    and "a \<in> set (topKByScore items k)" and "b \<in> set items" and "b \<notin> set (topKByScore items k)"
  shows "dge (score a) (score b)"
proof -
  let ?s = "Array_sort (\<lambda>x y. dgt (score y) (score x)) items"
  have "sorted_wrt (\<lambda>a b. dge (score a) (score b)) (take k ?s @ drop k ?s)"
    using sorted_finite[OF assms(1)] by simp
  then have all: "\<forall>x \<in> set (take k ?s). \<forall>y \<in> set (drop k ?s). dge (score x) (score y)"
    by (simp only: sorted_wrt_append) blast
  have "set ?s = set (take k ?s) \<union> set (drop k ?s)"
    by (metis append_take_drop_id set_append)
  with assms(3,4) have "b \<in> set (drop k ?s)"
    by (auto simp: topKByScore_def Array_sort_set)
  with all assms(2) show ?thesis
    by (simp add: topKByScore_def)
qed

lemma topKByScore_stable:
  assumes "\<forall>x \<in> set items. isFinite (score x)"
  shows "prefix (filter (\<lambda>it. score it = s) (topKByScore items k))
                (filter (\<lambda>it. score it = s) items)"
proof -
  let ?f = "\<lambda>x. - realOf (score x)"
  let ?sorted = "sort_key ?f items"
  let ?Q = "\<lambda>it. isFinite s \<and> ?f it = - realOf s"
  have P: "(score it = s) = ?Q it" if "it \<in> set items" for it
    using that assms finite_eq[of "score it" s] by auto
  have "filter (\<lambda>it. score it = s) ?sorted = filter ?Q ?sorted"
    by (rule filter_cong) (simp_all add: P)
  also have "\<dots> = filter ?Q items"
  proof (cases "isFinite s")
    case True
    then show ?thesis
      using sort_key_stable[of ?f "- realOf s" items] by simp
  next
    case False
    then show ?thesis by simp
  qed
  also have "\<dots> = filter (\<lambda>it. score it = s) items"
    by (rule filter_cong) (simp_all add: P)
  finally have "filter (\<lambda>it. score it = s) ?sorted = filter (\<lambda>it. score it = s) items" .
  moreover have "prefix (filter (\<lambda>it. score it = s) (take k ?sorted))
                        (filter (\<lambda>it. score it = s) ?sorted)"
    by (intro filter_mono_prefix take_is_prefix)
  ultimately show ?thesis
    by (simp add: topKByScore_def Array_sort_score[OF assms])
qed

text \<open>
  C2, as the code has it. For every arithmetic of doubles, every query vector, every
  count \<open>k\<close> and every chunk list: the scored items are the chunks that have an
  embedding, in the order of the chunk list; \<^verbatim>\<open>topKByScore\<close> returns \<open>k\<close> of them, or
  all when there are fewer; the score of each is the sum that \<^verbatim>\<open>dot\<close> accumulates from
  0 over the products of the entries that the query and the embedding both have, each
  sum and product rounded. When all the scores are finite, the result is sorted by
  score in descending order, no scored item left out has a greater score than one
  returned, and for every score the returned items with that score are an initial
  part of the scored items with that score, in their order (ties keep the insertion
  order). \<^verbatim>\<open>retrieveTopChunks\<close> is the case \<open>k = TOP_K\<close>.
\<close>

theorem retrieval_topK:
  fixes ar :: arith and q :: vec and k :: nat and cs :: "chunk list"
  shows "retrieveTopChunks ar q cs = topKByScore (scoreChunks ar q cs) TOP_K \<and>
         map ch (scoreChunks ar q cs) = filter (\<lambda>c. embedding c \<noteq> None) cs \<and>
         length (topKByScore (scoreChunks ar q cs) k) = min k (length (scoreChunks ar q cs)) \<and>
         (\<forall>it \<in> set (topKByScore (scoreChunks ar q cs) k).
            it \<in> set (scoreChunks ar q cs) \<and> ch it \<in> set cs \<and>
            (\<exists>e. embedding (ch it) = Some e \<and>
                 score it = foldl (\<lambda>s (x, y). fadd ar s (fmul ar x y)) (Finite 0) (zip q e))) \<and>
         ((\<forall>it \<in> set (scoreChunks ar q cs). isFinite (score it)) \<longrightarrow>
            sorted_wrt (\<lambda>a b. dge (score a) (score b)) (topKByScore (scoreChunks ar q cs) k) \<and>
            (\<forall>a \<in> set (topKByScore (scoreChunks ar q cs) k).
               \<forall>b \<in> set (scoreChunks ar q cs).
                 b \<notin> set (topKByScore (scoreChunks ar q cs) k) \<longrightarrow> dge (score a) (score b)) \<and>
            (\<forall>s. prefix (filter (\<lambda>it. score it = s) (topKByScore (scoreChunks ar q cs) k))
                        (filter (\<lambda>it. score it = s) (scoreChunks ar q cs))))"
proof -
  let ?items = "scoreChunks ar q cs"
  have A: "it \<in> set ?items \<and> ch it \<in> set cs \<and>
           (\<exists>e. embedding (ch it) = Some e \<and>
                score it = foldl (\<lambda>s (x, y). fadd ar s (fmul ar x y)) (Finite 0) (zip q e))"
    if "it \<in> set (topKByScore ?items k)" for it
  proof -
    from that topKByScore_set[of ?items k] have m: "it \<in> set ?items"
      by blast
    from scoreChunks_score[OF m] show ?thesis
      using m by (simp add: dot_foldl)
  qed
  have B: "sorted_wrt (\<lambda>a b. dge (score a) (score b)) (topKByScore ?items k) \<and>
           (\<forall>a \<in> set (topKByScore ?items k). \<forall>b \<in> set ?items.
              b \<notin> set (topKByScore ?items k) \<longrightarrow> dge (score a) (score b)) \<and>
           (\<forall>s. prefix (filter (\<lambda>it. score it = s) (topKByScore ?items k))
                       (filter (\<lambda>it. score it = s) ?items))"
    if fin: "\<forall>it \<in> set ?items. isFinite (score it)"
    using topKByScore_sorted[OF fin] topKByScore_best[OF fin] topKByScore_stable[OF fin]
    by blast
  have C: "retrieveTopChunks ar q cs = topKByScore ?items TOP_K"
    by (simp add: retrieveTopChunks_def)
  have D: "map ch ?items = filter (\<lambda>c. embedding c \<noteq> None) cs"
    by (rule scoreChunks_ch)
  have E: "length (topKByScore ?items k) = min k (length ?items)"
    by (rule topKByScore_length)
  from A B C D E show ?thesis
    by blast
qed

lemma demo_scored:
  "scoreChunks exactArith [Finite 1, Finite 1] [chunkA, chunkB, chunkC, chunkD]
     = [\<lparr>score = Finite (3 / 2), ch = chunkA\<rparr>, \<lparr>score = Finite 2, ch = chunkC\<rparr>,
        \<lparr>score = Finite 2, ch = chunkD\<rparr>]"
  by (simp add: dot_def exactArith_def chunkA_def chunkB_def chunkC_def chunkD_def)

lemma demo_topK:
  "topKByScore (scoreChunks exactArith [Finite 1, Finite 1] [chunkA, chunkB, chunkC, chunkD]) 2
     = [\<lparr>score = Finite 2, ch = chunkC\<rparr>, \<lparr>score = Finite 2, ch = chunkD\<rparr>]"
  unfolding demo_scored by (simp add: topKByScore_def Array_sort_def)

theorem retrieval_topK_witness:
  "scoreChunks exactArith [Finite 1, Finite 1] [chunkA, chunkB, chunkC, chunkD]
     = [\<lparr>score = Finite (3 / 2), ch = chunkA\<rparr>, \<lparr>score = Finite 2, ch = chunkC\<rparr>,
        \<lparr>score = Finite 2, ch = chunkD\<rparr>] \<and>
   isFinite (Finite (3 / 2)) \<and> isFinite (Finite 2) \<and>
   topKByScore (scoreChunks exactArith [Finite 1, Finite 1] [chunkA, chunkB, chunkC, chunkD]) 2
     = [\<lparr>score = Finite 2, ch = chunkC\<rparr>, \<lparr>score = Finite 2, ch = chunkD\<rparr>] \<and>
   sorted_wrt (\<lambda>a b. dge (score a) (score b))
     (topKByScore (scoreChunks exactArith [Finite 1, Finite 1] [chunkA, chunkB, chunkC, chunkD]) 2) \<and>
   dge (score \<lparr>score = Finite 2, ch = chunkD\<rparr>) (score \<lparr>score = Finite (3 / 2), ch = chunkA\<rparr>) \<and>
   (\<exists>e. embedding (ch \<lparr>score = Finite 2, ch = chunkD\<rparr>) = Some e \<and>
        score \<lparr>score = Finite 2, ch = chunkD\<rparr>
          = foldl (\<lambda>s (x, y). fadd exactArith s (fmul exactArith x y)) (Finite 0)
              (zip [Finite 1, Finite 1] e)) \<and>
   prefix (filter (\<lambda>it. score it = Finite 2)
             (topKByScore (scoreChunks exactArith [Finite 1, Finite 1]
                [chunkA, chunkB, chunkC, chunkD]) 2))
          (filter (\<lambda>it. score it = Finite 2)
             (scoreChunks exactArith [Finite 1, Finite 1] [chunkA, chunkB, chunkC, chunkD]))"
proof -
  let ?q = "[Finite 1, Finite 1]"
  let ?cs = "[chunkA, chunkB, chunkC, chunkD]"
  let ?items = "scoreChunks exactArith ?q ?cs"
  let ?r = "topKByScore ?items 2"
  let ?a = "\<lparr>score = Finite (3 / 2), ch = chunkA\<rparr>"
  let ?d = "\<lparr>score = Finite 2, ch = chunkD\<rparr>"
  note inst = retrieval_topK[of exactArith ?q ?cs 2]
  have r: "?r = [\<lparr>score = Finite 2, ch = chunkC\<rparr>, ?d]"
    by (rule demo_topK)
  have fin: "\<forall>it \<in> set ?items. isFinite (score it)"
    unfolding demo_scored by simp
  have m: "?d \<in> set ?r"
    unfolding r by simp
  have a: "?a \<in> set ?items"
    unfolding demo_scored by simp
  have na: "?a \<notin> set ?r"
    unfolding r by (simp add: chunkA_def chunkC_def chunkD_def)
  from inst have "\<forall>it \<in> set ?r. it \<in> set ?items \<and> ch it \<in> set ?cs
      \<and> (\<exists>e. embedding (ch it) = Some e \<and>
              score it = foldl (\<lambda>s (x, y). fadd exactArith s (fmul exactArith x y)) (Finite 0)
                           (zip ?q e))"
    by blast
  with m have e: "\<exists>e. embedding (ch ?d) = Some e \<and>
      score ?d = foldl (\<lambda>s (x, y). fadd exactArith s (fmul exactArith x y)) (Finite 0) (zip ?q e)"
    by blast
  from inst fin have s: "sorted_wrt (\<lambda>a b. dge (score a) (score b)) ?r"
    by blast
  from inst fin have "\<forall>a \<in> set ?r. \<forall>b \<in> set ?items. b \<notin> set ?r \<longrightarrow> dge (score a) (score b)"
    by blast
  with m a na have b: "dge (score ?d) (score ?a)"
    by blast
  from inst fin have p: "prefix (filter (\<lambda>it. score it = Finite 2) ?r)
      (filter (\<lambda>it. score it = Finite 2) ?items)"
    by blast
  have f: "isFinite (Finite (3 / 2))" "isFinite (Finite 2)"
    by simp_all
  from demo_scored f r s b e p show ?thesis
    by blast
qed

text \<open>
  C2 as stated fails: a NaN in an embedding gives a NaN score, and neither order of a
  NaN and another score is descending. Here the first of two chunks has the score NaN
  and the second the score 1; the comparator returns NaN for the two, and they stay
  as they are.
\<close>

theorem retrieval_NaN_counterexample:
  "map score (scoreChunks exactArith [Finite 1] [nanChunk, oneChunk]) = [NaN, Finite 1] \<and>
   map score (retrieveTopChunks exactArith [Finite 1] [nanChunk, oneChunk]) = [NaN, Finite 1] \<and>
   \<not> sorted_wrt (\<lambda>a b. dge (score a) (score b))
       (retrieveTopChunks exactArith [Finite 1] [nanChunk, oneChunk]) \<and>
   \<not> sorted_wrt (\<lambda>a b. dge (score a) (score b))
       (rev (retrieveTopChunks exactArith [Finite 1] [nanChunk, oneChunk]))"
  by (simp add: retrieveTopChunks_def topKByScore_def Array_sort_def TOP_K_def dot_def
        exactArith_def nanChunk_def oneChunk_def dge_def)

section \<open>The windows of chunkText\<close>

lemma successively_nth:
  "successively P xs \<Longrightarrow> Suc k < length xs \<Longrightarrow> P (xs ! k) (xs ! Suc k)"
proof (induction xs arbitrary: k)
  case (Cons x xs)
  then show ?case
    by (cases xs; cases k) auto
qed simp

text \<open>One run of the loop, for \<open>overlap < chunkSize\<close>.\<close>

lemma chunk_run:
  assumes "overlap < chunkSize"
  shows "\<exists>ws'. chunkWindows (length t) chunkSize overlap start ws = Some (ws @ ws') \<and>
               chunkLoop t chunkSize overlap start out = Some (out @ pieces t ws') \<and>
               (ws' = [] \<longleftrightarrow> length t \<le> start) \<and>
               (ws' \<noteq> [] \<longrightarrow> fst (hd ws') = start \<and> snd (last ws') = length t) \<and>
               (\<forall>(s, e) \<in> set ws'. s < length t \<and> e = min (length t) (s + chunkSize)) \<and>
               successively (\<lambda>w w'. fst w' + overlap = snd w \<and> snd w = fst w + chunkSize
                                       \<and> snd w < snd w') ws'"
  using assms
proof (induction "length t - start" arbitrary: start ws out rule: less_induct)
  case less
  show ?case
  proof (cases "start < length t")
    case False
    then have "chunkWindows (length t) chunkSize overlap start ws = Some (ws @ [])"
      and "chunkLoop t chunkSize overlap start out = Some (out @ pieces t [])"
      by (subst chunkWindows.simps chunkLoop.simps, simp add: pieces_def)+
    with False show ?thesis by (intro exI[of _ "[]"]) simp
  next
    case True
    define e where "e = min (length t) (start + chunkSize)"
    define piece where "piece = trim (slice t start e)"
    define out' where "out' = (if 30 \<le> length piece then out @ [piece] else out)"
    have out': "out' = out @ pieces t [(start, e)]"
      by (simp add: out'_def pieces_def piece_def)
    show ?thesis
    proof (cases "length t \<le> e")
      case last: True
      have "chunkWindows (length t) chunkSize overlap start ws = Some (ws @ [(start, e)])"
        using True last by (subst chunkWindows.simps) (simp add: Let_def e_def)
      moreover have "chunkLoop t chunkSize overlap start out = Some (out @ pieces t [(start, e)])"
        using True last
        by (subst chunkLoop.simps) (simp add: Let_def e_def pieces_def)
      moreover have "e = length t" using last by (simp add: e_def)
      ultimately show ?thesis using True
        by (intro exI[of _ "[(start, e)]"]) (simp add: e_def)
    next
      case more: False
      then have e: "e = start + chunkSize" "e < length t" by (simp_all add: e_def)
      define s' where "s' = nat (max 0 (int e - int overlap))"
      have s': "s' + overlap = e" "start < s'" "s' < length t"
        using e less.prems by (simp_all add: s'_def)
      then have "length t - s' < length t - start" using True by linarith
      from less.hyps[OF this less.prems, of "ws @ [(start, e)]" out'] obtain ws' where
        W: "chunkWindows (length t) chunkSize overlap s' (ws @ [(start, e)]) = Some ((ws @ [(start, e)]) @ ws')"
        and L: "chunkLoop t chunkSize overlap s' out' = Some (out' @ pieces t ws')"
        and N: "ws' = [] \<longleftrightarrow> length t \<le> s'"
        and H: "ws' \<noteq> [] \<longrightarrow> fst (hd ws') = s' \<and> snd (last ws') = length t"
        and A: "\<forall>(s, e) \<in> set ws'. s < length t \<and> e = min (length t) (s + chunkSize)"
        and S: "successively (\<lambda>w w'. fst w' + overlap = snd w \<and> snd w = fst w + chunkSize
                                       \<and> snd w < snd w') ws'"
        by blast
      from N s' have ne: "ws' \<noteq> []" by simp
      with H have hd: "fst (hd ws') = s'" and lst: "snd (last ws') = length t" by simp_all
      from ne A hd have "snd (hd ws') = min (length t) (s' + chunkSize)"
        by (cases ws') auto
      then have hd2: "e < snd (hd ws')" using e s' less.prems by simp
      have "chunkWindows (length t) chunkSize overlap start ws
              = chunkWindows (length t) chunkSize overlap s' (ws @ [(start, e)])"
        using True more
        by (subst chunkWindows.simps) (simp add: Let_def e_def s'_def)
      with W have "chunkWindows (length t) chunkSize overlap start ws = Some (ws @ (start, e) # ws')"
        by simp
      moreover have "chunkLoop t chunkSize overlap start out = chunkLoop t chunkSize overlap s' out'"
        using True more
        by (subst chunkLoop.simps) (simp add: Let_def e_def s'_def out'_def piece_def)
      with L out' have "chunkLoop t chunkSize overlap start out = Some (out @ pieces t ((start, e) # ws'))"
        by (simp add: pieces_def)
      moreover have "successively (\<lambda>w w'. fst w' + overlap = snd w \<and> snd w = fst w + chunkSize
                                       \<and> snd w < snd w') ((start, e) # ws')"
        using S ne hd hd2 s' e by (simp add: successively_Cons)
      moreover have "\<forall>(s, e) \<in> set ((start, e) # ws'). s < length t \<and> e = min (length t) (s + chunkSize)"
        using A True by (simp add: e_def)
      ultimately show ?thesis using ne lst True
        by (intro exI[of _ "(start, e) # ws'"]) simp
    qed
  qed
qed

lemma collapseBlanks_plain: "\<forall>c \<in> set s. \<not> isBlank c \<Longrightarrow> collapseBlanks s = s"
  by (induction s) auto

lemma replaceCRLF_plain: "CR \<notin> set s \<Longrightarrow> replaceCRLF s = s"
  by (induction s rule: replaceCRLF.induct) auto

lemma collapseNewlines_plain: "LF \<notin> set s \<Longrightarrow> collapseNewlines s = s"
  by (induction s) auto

lemma trim_replicate: "\<not> isWhite c \<Longrightarrow> trim (replicate n c) = replicate n c"
  by (simp add: trim_def dropWhile_replicate)

lemma normalizeText_letters: "normalizeText (replicate n 0x61) = replicate n 0x61"
proof -
  have "replaceNul (replicate n 0x61) = replicate n 0x61"
    by (simp add: replaceNul_def NUL_def)
  moreover have "collapseBlanks (replicate n 0x61) = replicate n 0x61"
    by (rule collapseBlanks_plain) (simp add: isBlank_def SP_def TAB_def)
  moreover have "replaceCRLF (replicate n 0x61) = replicate n 0x61"
    by (rule replaceCRLF_plain) (simp add: CR_def)
  moreover have "collapseNewlines (replicate n 0x61) = replicate n 0x61"
    by (rule collapseNewlines_plain) (simp add: LF_def)
  moreover have "trim (replicate n 0x61) = replicate n 0x61"
    by (rule trim_replicate) (simp add: isWhite_def)
  ultimately show ?thesis
    by (simp add: normalizeText_def)
qed

text \<open>
  C9. \<^verbatim>\<open>chunkText\<close> returns for every text with the default sizes, and with any sizes
  such that \<open>overlap < chunkSize\<close>. What it returns is what the loop pushes for the
  finitely many windows \<open>ws\<close> it visits, and when the normalized text is not empty the
  loop has reached the end of the text: the first window starts at 0, every window
  ends at \<open>min length (start + chunkSize)\<close>, each next window reaches further than the
  one before it, and the last window ends at the end of the text.
\<close>

theorem chunkText_terminates:
  "(\<exists>ws. chunkText text CHUNK_CHARS CHUNK_OVERLAP = Some (pieces (normalizeText text) ws) \<and>
         chunkWindows (length (normalizeText text)) CHUNK_CHARS CHUNK_OVERLAP 0 [] = Some ws \<and>
         (normalizeText text \<noteq> [] \<longrightarrow>
            ws \<noteq> [] \<and> length (normalizeText text) \<le> snd (last ws))) \<and>
   (overlap < chunkSize \<longrightarrow>
      (\<exists>ws. chunkText text chunkSize overlap = Some (pieces (normalizeText text) ws) \<and>
         chunkWindows (length (normalizeText text)) chunkSize overlap 0 [] = Some ws \<and>
         (\<forall>(s, e) \<in> set ws. s < length (normalizeText text)
                              \<and> e = min (length (normalizeText text)) (s + chunkSize)) \<and>
         (\<forall>k. Suc k < length ws \<longrightarrow> snd (ws ! k) < snd (ws ! Suc k)) \<and>
         (normalizeText text \<noteq> [] \<longrightarrow>
            ws \<noteq> [] \<and> fst (hd ws) = 0 \<and> length (normalizeText text) \<le> snd (last ws))))"
proof -
  let ?t = "normalizeText text"
  have gen: "\<exists>ws. chunkText text chunkSize overlap = Some (pieces ?t ws) \<and>
         chunkWindows (length ?t) chunkSize overlap 0 [] = Some ws \<and>
         (\<forall>(s, e) \<in> set ws. s < length ?t \<and> e = min (length ?t) (s + chunkSize)) \<and>
         (\<forall>k. Suc k < length ws \<longrightarrow> snd (ws ! k) < snd (ws ! Suc k)) \<and>
         (?t \<noteq> [] \<longrightarrow> ws \<noteq> [] \<and> fst (hd ws) = 0 \<and> length ?t \<le> snd (last ws))"
    if "overlap < chunkSize" for chunkSize overlap
  proof -
    from chunk_run[OF that, of ?t 0 "[]" "[]"] obtain ws where
      W: "chunkWindows (length ?t) chunkSize overlap 0 [] = Some ws"
      and L: "chunkLoop ?t chunkSize overlap 0 [] = Some (pieces ?t ws)"
      and N: "ws = [] \<longleftrightarrow> length ?t \<le> 0"
      and H: "ws \<noteq> [] \<longrightarrow> fst (hd ws) = 0 \<and> snd (last ws) = length ?t"
      and A: "\<forall>(s, e) \<in> set ws. s < length ?t \<and> e = min (length ?t) (s + chunkSize)"
      and S: "successively (\<lambda>w w'. fst w' + overlap = snd w \<and> snd w = fst w + chunkSize
                                       \<and> snd w < snd w') ws"
      by auto
    have C: "chunkText text chunkSize overlap = Some (pieces ?t ws)"
    proof (cases "?t = []")
      case True
      with N have "ws = []" by simp
      with True show ?thesis by (simp add: chunkText_def pieces_def)
    next
      case False
      with L show ?thesis by (simp add: chunkText_def)
    qed
    have K: "\<forall>k. Suc k < length ws \<longrightarrow> snd (ws ! k) < snd (ws ! Suc k)"
      using successively_nth[OF S] by blast
    have E: "?t \<noteq> [] \<longrightarrow> ws \<noteq> [] \<and> fst (hd ws) = 0 \<and> length ?t \<le> snd (last ws)"
      using N H by simp
    from C W A K E show ?thesis
      by blast
  qed
  have "CHUNK_OVERLAP < CHUNK_CHARS"
    by (simp add: CHUNK_OVERLAP_def CHUNK_CHARS_def)
  from gen[OF this] gen show ?thesis
    by blast
qed

theorem chunkText_terminates_witness:
  "(10::nat) < 40 \<and>
   chunkText (replicate 70 0x61) 40 10 = Some [replicate 40 0x61, replicate 40 0x61] \<and>
   chunkWindows (length (normalizeText (replicate 70 0x61))) 40 10 0 [] = Some [(0, 40), (30, 70)] \<and>
   normalizeText (replicate 70 0x61) \<noteq> [] \<and>
   fst (hd [(0 :: nat, 40 :: nat), (30, 70)]) = 0 \<and>
   length (normalizeText (replicate 70 (0x61 :: jschar))) \<le> snd (last [(0 :: nat, 40 :: nat), (30, 70)])"
proof -
  let ?text = "replicate 70 (0x61 :: jschar)"
  let ?ws = "[(0 :: nat, 40 :: nat), (30, 70)]"
  have h: "(10::nat) < 40" by simp
  have n: "normalizeText ?text = ?text"
    by (rule normalizeText_letters)
  have w: "chunkWindows (length (normalizeText ?text)) 40 10 0 [] = Some ?ws"
    unfolding n by (simp add: chunkWindows.simps)
  have p: "pieces ?text ?ws = [replicate 40 0x61, replicate 40 0x61]"
    by (simp add: pieces_def slice_def trim_replicate isWhite_def)
  from chunkText_terminates[of ?text 10 40] h w
  have c: "chunkText ?text 40 10 = Some (pieces (normalizeText ?text) ?ws)"
    and l: "normalizeText ?text \<noteq> [] \<longrightarrow>
              ?ws \<noteq> [] \<and> fst (hd ?ws) = 0 \<and> length (normalizeText ?text) \<le> snd (last ?ws)"
    by auto
  from c have "chunkText ?text 40 10 = Some [replicate 40 0x61, replicate 40 0x61]"
    unfolding n p .
  moreover have ne: "normalizeText ?text \<noteq> []"
    unfolding n by simp
  moreover from l ne have "fst (hd ?ws) = 0 \<and> length (normalizeText ?text) \<le> snd (last ?ws)"
    by blast
  ultimately show ?thesis using h w
    by simp
qed

text \<open>
  C3, as the code has it. With \<open>chunkSize = 1200\<close> and \<open>overlap = 200\<close> the loop visits
  windows \<open>(start, end)\<close> of the normalized text with \<open>end = min length (start + 1200)\<close>;
  the first starts at 0 and the last ends at the end of the text; each next window
  starts 200 code units before the end of the one before it, which is full (1200 long),
  and reaches further. The result holds the trimmed text of each window, in order,
  except those whose trimmed text has fewer than 30 code units (of any kind).
\<close>

theorem chunkText_windows:
  "\<exists>ws. chunkWindows (length (normalizeText text)) 1200 200 0 [] = Some ws \<and>
        chunkText text 1200 200 = Some (pieces (normalizeText text) ws) \<and>
        (\<forall>(s, e) \<in> set ws. s < length (normalizeText text)
                             \<and> e = min (length (normalizeText text)) (s + 1200)) \<and>
        (\<forall>k. Suc k < length ws \<longrightarrow>
               fst (ws ! Suc k) + 200 = snd (ws ! k) \<and> snd (ws ! k) = fst (ws ! k) + 1200
               \<and> snd (ws ! k) < snd (ws ! Suc k)) \<and>
        (ws \<noteq> [] \<longrightarrow> fst (hd ws) = 0 \<and> snd (last ws) = length (normalizeText text))"
proof -
  let ?t = "normalizeText text"
  have "(200::nat) < 1200" by simp
  from chunk_run[OF this, of ?t 0 "[]" "[]"] obtain ws where
    W: "chunkWindows (length ?t) 1200 200 0 [] = Some ws"
    and L: "chunkLoop ?t 1200 200 0 [] = Some (pieces ?t ws)"
    and N: "ws = [] \<longleftrightarrow> length ?t \<le> 0"
    and H: "ws \<noteq> [] \<longrightarrow> fst (hd ws) = 0 \<and> snd (last ws) = length ?t"
    and A: "\<forall>(s, e) \<in> set ws. s < length ?t \<and> e = min (length ?t) (s + 1200)"
    and S: "successively (\<lambda>w w'. fst w' + 200 = snd w \<and> snd w = fst w + 1200
                                       \<and> snd w < snd w') ws"
    by auto
  have "chunkText text 1200 200 = Some (pieces ?t ws)"
  proof (cases "?t = []")
    case True
    with N have "ws = []" by simp
    with True show ?thesis by (simp add: chunkText_def pieces_def)
  next
    case False
    with L show ?thesis by (simp add: chunkText_def)
  qed
  moreover have "\<forall>k. Suc k < length ws \<longrightarrow>
               fst (ws ! Suc k) + 200 = snd (ws ! k) \<and> snd (ws ! k) = fst (ws ! k) + 1200
               \<and> snd (ws ! k) < snd (ws ! Suc k)"
    using successively_nth[OF S] by blast
  ultimately show ?thesis using W H A by blast
qed

theorem chunkText_windows_witness:
  "chunkWindows (length (normalizeText (replicate 1300 0x61))) 1200 200 0 []
     = Some [(0, 1200), (1000, 1300)] \<and>
   chunkText (replicate 1300 0x61) 1200 200
     = Some [replicate 1200 0x61, replicate 300 0x61] \<and>
   (1000, 1300) \<in> set [(0 :: nat, 1200 :: nat), (1000, 1300)] \<and>
   1300 = min (length (normalizeText (replicate 1300 (0x61 :: jschar)))) (1000 + 1200) \<and>
   Suc 0 < length [(0 :: nat, 1200 :: nat), (1000, 1300)] \<and>
   fst ([(0 :: nat, 1200 :: nat), (1000, 1300)] ! Suc 0) + 200 = snd ([(0, 1200), (1000, 1300)] ! 0) \<and>
   [(0 :: nat, 1200 :: nat), (1000, 1300)] \<noteq> [] \<and>
   snd (last [(0 :: nat, 1200 :: nat), (1000, 1300)])
     = length (normalizeText (replicate 1300 (0x61 :: jschar)))"
proof -
  let ?text = "replicate 1300 (0x61 :: jschar)"
  let ?ws = "[(0 :: nat, 1200 :: nat), (1000, 1300)]"
  have n: "normalizeText ?text = ?text"
    by (rule normalizeText_letters)
  have w: "chunkWindows (length (normalizeText ?text)) 1200 200 0 [] = Some ?ws"
    unfolding n by (simp add: chunkWindows.simps)
  have p: "pieces ?text ?ws = [replicate 1200 0x61, replicate 300 0x61]"
    by (simp add: pieces_def slice_def trim_replicate isWhite_def)
  from chunkText_windows[of ?text] w
  have c: "chunkText ?text 1200 200 = Some (pieces (normalizeText ?text) ?ws)"
    and o: "\<forall>k. Suc k < length ?ws \<longrightarrow> fst (?ws ! Suc k) + 200 = snd (?ws ! k)
              \<and> snd (?ws ! k) = fst (?ws ! k) + 1200 \<and> snd (?ws ! k) < snd (?ws ! Suc k)"
    and l: "?ws \<noteq> [] \<longrightarrow> fst (hd ?ws) = 0 \<and> snd (last ?ws) = length (normalizeText ?text)"
    by auto
  from o have "fst (?ws ! Suc 0) + 200 = snd (?ws ! 0)"
    by simp
  moreover from c have "chunkText ?text 1200 200 = Some [replicate 1200 0x61, replicate 300 0x61]"
    unfolding n p .
  moreover from l have "snd (last ?ws) = length (normalizeText ?text)"
    by simp
  ultimately show ?thesis using w n
    by simp
qed

text \<open>
  C3 as stated fails: the single window of this text has 16 code units that are not
  whitespace, fewer than 30, and it is kept, because its trimmed length is 31.
\<close>

theorem chunkText_whitespace_counterexample:
  "nonWhiteCount spacedText = 16 \<and>
   length spacedText = 31 \<and>
   normalizeText spacedText = spacedText \<and>
   chunkWindows (length spacedText) 1200 200 0 [] = Some [(0, 31)] \<and>
   chunkText spacedText 1200 200 = Some [spacedText]"
  by code_simp

section \<open>Export, then import\<close>






section \<open>What importJSON accepts\<close>

lemma importJSON_rejects:
  assumes "getProp data (js ''docs'') = None \<or> getProp data (js ''chunks'') = None
           \<or> (\<exists>d. getProp data (js ''docs'') = Some d \<and> \<not> truthy d)
           \<or> (\<exists>c. getProp data (js ''chunks'') = Some c \<and> \<not> truthy c)"
  shows "importJSON data st = (Inr (), st\<lparr>alerts := alerts st @ [ImportFormat]\<rparr>)"
  using assms by (auto simp: importJSON_def alert_def split: option.splits)

text \<open>
  C7. The guard of \<^verbatim>\<open>importJSON\<close> tests that \<^verbatim>\<open>docs\<close> and \<^verbatim>\<open>chunks\<close> are present and
  truthy (lemma \<open>importJSON_rejects\<close>), not that they are arrays. A payload whose
  \<^verbatim>\<open>docs\<close> is an object passes the guard: both stores and the lists in memory are
  emptied, then the spread of \<^verbatim>\<open>data.docs\<close> throws, and no format alert is shown.
\<close>

theorem importJSON_non_array_clears:
  "getProp nonArrayPayload (js ''docs'') = Some (JObj []) \<and>
   fst (importJSON nonArrayPayload importedState) = Inl TypeError \<and>
   alerts (snd (importJSON nonArrayPayload importedState)) = [] \<and>
   docs importedState = [importedDoc] \<and>
   docs (snd (importJSON nonArrayPayload importedState)) = [] \<and>
   chunks importedState = [importedChunk] \<and>
   chunks (snd (importJSON nonArrayPayload importedState)) = [] \<and>
   idb_docs importedState (JStr (js ''d1'')) = Some importedDoc \<and>
   idb_docs (snd (importJSON nonArrayPayload importedState)) (JStr (js ''d1'')) = None \<and>
   idb_chunks importedState (JStr (js ''d1|p1|c0'')) = Some importedChunk \<and>
   idb_chunks (snd (importJSON nonArrayPayload importedState)) (JStr (js ''d1|p1|c0'')) = None"
  by (simp add: importJSON_def nonArrayPayload_def importedState_def dbClearAll_def js_def)

theorem importJSON_non_array_clears_witness:
  "fst (importJSON nonArrayPayload importedState) \<noteq> Inr () \<and>
   docs (snd (importJSON nonArrayPayload importedState)) \<noteq> docs importedState \<and>
   idb_docs (snd (importJSON nonArrayPayload importedState)) (JStr (js ''d1''))
     \<noteq> idb_docs importedState (JStr (js ''d1''))"
  using importJSON_non_array_clears by simp








text \<open>
  A document whose \<^verbatim>\<open>name\<close> is a number is imported into memory and into the store,
  and then \<^verbatim>\<open>renderDocs\<close> throws: the import ends with a TypeError and no alert.
\<close>

lemma importJSON_number_name_throws:
  "docHasKey numberNameDoc \<and>
   fst (importJSON numberNamePayload emptyState) = Inl TypeError \<and>
   alerts (snd (importJSON numberNamePayload emptyState)) = [] \<and>
   docs (snd (importJSON numberNamePayload emptyState)) = [numberNameDoc] \<and>
   idb_docs (snd (importJSON numberNamePayload emptyState)) (JStr (js ''d2'')) = Some numberNameDoc"
  by code_simp

section \<open>The citations that parseUsedCitations finds\<close>

lemma not_digit_brackets: "\<not> isDigit 0x5D" "\<not> isDigit 0x5B" "\<not> isDigit 0x43"
  by (simp_all add: isDigit_def)

lemma matchAt_Some_iff:
  "matchAt s = Some (ds, r) \<longleftrightarrow>
     ds \<noteq> [] \<and> list_all isDigit ds \<and> s = 0x5B # 0x43 # ds @ 0x5D # r"
proof
  assume m: "matchAt s = Some (ds, r)"
  then obtain rest where s: "s = 0x5B # 0x43 # rest"
    and ds: "ds = takeWhile isDigit rest" "ds \<noteq> []"
    and r: "dropWhile isDigit rest = 0x5D # r"
    by (auto simp: matchAt_def Let_def split: list.splits if_splits)
  have "rest = takeWhile isDigit rest @ dropWhile isDigit rest"
    by simp
  with ds r have "rest = ds @ 0x5D # r"
    by simp
  moreover have "list_all isDigit ds"
    unfolding ds list_all_iff by (auto dest: set_takeWhileD)
  ultimately show "ds \<noteq> [] \<and> list_all isDigit ds \<and> s = 0x5B # 0x43 # ds @ 0x5D # r"
    using s ds by simp
next
  assume a: "ds \<noteq> [] \<and> list_all isDigit ds \<and> s = 0x5B # 0x43 # ds @ 0x5D # r"
  then have d: "\<And>x. x \<in> set ds \<Longrightarrow> isDigit x"
    by (simp add: list_all_iff)
  have "takeWhile isDigit (ds @ 0x5D # r) = ds"
    using d by (simp add: takeWhile_append2 not_digit_brackets)
  moreover have "dropWhile isDigit (ds @ 0x5D # r) = 0x5D # r"
    using d by (simp add: dropWhile_append2 not_digit_brackets)
  ultimately show "matchAt s = Some (ds, r)"
    using a by (simp add: matchAt_def)
qed

lemma cited_Nil: "\<not> cited [] ds"
  by (simp add: cited_def citationLiteral_def)

lemma cited_Cons_None:
  assumes "matchAt (c # cs) = None"
  shows "cited (c # cs) ds \<longleftrightarrow> cited cs ds"
proof -
  have "\<not> prefix (citationLiteral ds) (c # cs)" if "ds \<noteq> []" "list_all isDigit ds"
  proof
    assume "prefix (citationLiteral ds) (c # cs)"
    then obtain post where "c # cs = 0x5B # 0x43 # ds @ 0x5D # post"
      by (auto simp: prefix_def citationLiteral_def)
    with that have "matchAt (c # cs) = Some (ds, post)"
      by (simp add: matchAt_Some_iff)
    with assms show False by simp
  qed
  then show ?thesis
    by (auto simp: cited_def sublist_Cons_right)
qed

lemma digits_unique:
  assumes "list_all isDigit ds" "list_all isDigit ds'"
    and "ds @ 0x5D # r = ds' @ 0x5D # r'"
  shows "ds = ds' \<and> r = r'"
proof -
  have "takeWhile isDigit (ds @ 0x5D # r) = ds" "takeWhile isDigit (ds' @ 0x5D # r') = ds'"
    using assms(1,2) by (simp_all add: takeWhile_append2 not_digit_brackets list_all_iff)
  with assms(3) have "ds = ds'" by simp
  with assms(3) show ?thesis by simp
qed

lemma sublist_skip:
  assumes "sublist (0x5B # xs) (ys @ zs)" and "0x5B \<notin> set ys"
  shows "sublist (0x5B # xs) zs"
  using assms
proof (induction ys)
  case Nil
  then show ?case by simp
next
  case (Cons y ys)
  from Cons.prems have "\<not> prefix (0x5B # xs) ((y # ys) @ zs)"
    by auto
  with Cons.prems have "sublist (0x5B # xs) (ys @ zs)"
    by (simp add: sublist_Cons_right)
  with Cons show ?case by simp
qed

lemma cited_Cons_Some:
  assumes "matchAt (c # cs) = Some (ds0, r)"
  shows "cited (c # cs) ds \<longleftrightarrow> ds = ds0 \<or> cited r ds"
proof -
  from assms have ds0: "ds0 \<noteq> []" "list_all isDigit ds0"
    and s: "c # cs = 0x5B # 0x43 # ds0 @ 0x5D # r"
    by (simp_all add: matchAt_Some_iff)
  have s': "c # cs = citationLiteral ds0 @ r"
    using s by (simp add: citationLiteral_def)
  have nb: "0x5B \<notin> set (0x43 # ds0 @ [0x5D])"
    using ds0(2) not_digit_brackets(2) by (auto simp: list_all_iff)
  show ?thesis
  proof
    assume c: "cited (c # cs) ds"
    then have d: "ds \<noteq> []" "list_all isDigit ds" and sub: "sublist (citationLiteral ds) (c # cs)"
      by (simp_all add: cited_def)
    from sub consider "prefix (citationLiteral ds) (c # cs)" | "sublist (citationLiteral ds) cs"
      by (auto simp: sublist_Cons_right)
    then show "ds = ds0 \<or> cited r ds"
    proof cases
      case 1
      then obtain post where "c # cs = 0x5B # 0x43 # ds @ 0x5D # post"
        by (auto simp: prefix_def citationLiteral_def)
      with s have "ds @ 0x5D # post = ds0 @ 0x5D # r" by simp
      from digits_unique[OF d(2) ds0(2) this] show ?thesis by simp
    next
      case 2
      with s have "sublist (0x5B # 0x43 # ds @ [0x5D]) ((0x43 # ds0 @ [0x5D]) @ r)"
        by (simp add: citationLiteral_def)
      from sublist_skip[OF this nb] have "sublist (citationLiteral ds) r"
        by (simp add: citationLiteral_def)
      with d show ?thesis by (simp add: cited_def)
    qed
  next
    assume "ds = ds0 \<or> cited r ds"
    then show "cited (c # cs) ds"
    proof
      assume "ds = ds0"
      with ds0 s' show ?thesis
        by (simp add: cited_def sublist_append_rightI)
    next
      assume "cited r ds"
      then show ?thesis
        unfolding s' cited_def by (simp add: sublist_append)
    qed
  qed
qed

lemma citeLoop_cited:
  "n \<in> set (citeLoop rnd s) \<longleftrightarrow> (\<exists>ds. cited s ds \<and> n = Number rnd ds)"
proof (induction rnd s rule: citeLoop.induct)
  case (1 rnd)
  then show ?case by (simp add: cited_Nil)
next
  case (2 rnd c cs)
  show ?case
  proof (cases "matchAt (c # cs)")
    case None
    with 2 show ?thesis by (simp add: cited_Cons_None)
  next
    case (Some a)
    obtain ds0 r where a: "a = (ds0, r)" by (cases a)
    with Some 2 have "n \<in> set (citeLoop rnd r) \<longleftrightarrow> (\<exists>ds. cited r ds \<and> n = Number rnd ds)"
      by simp
    with Some a show ?thesis
      by (auto simp: cited_Cons_Some)
  qed
qed

lemma unat_digit: "k < 10 \<Longrightarrow> unat (of_nat (48 + k) :: jschar) = 48 + k"
  by (simp only: unat_of_nat) simp

lemma uint_digit: "k < 10 \<Longrightarrow> uint (of_nat (48 + k) :: jschar) - 48 = int k"
proof -
  assume k: "k < 10"
  have "uint (of_nat (48 + k) :: jschar) = int (unat (of_nat (48 + k) :: jschar))"
    by simp
  with unat_digit[OF k] show ?thesis
    by (simp del: of_nat_add)
qed

lemma isDigit_of_nat: "k < 10 \<Longrightarrow> isDigit (of_nat (48 + k))"
proof -
  assume k: "k < 10"
  have "(0x30 :: jschar) \<le> of_nat (48 + k) \<longleftrightarrow> unat (0x30 :: jschar) \<le> unat (of_nat (48 + k) :: jschar)"
    by (rule word_le_nat_alt)
  moreover have "(of_nat (48 + k) :: jschar) \<le> 0x39 \<longleftrightarrow> unat (of_nat (48 + k) :: jschar) \<le> unat (0x39 :: jschar)"
    by (rule word_le_nat_alt)
  ultimately show ?thesis
    using k by (simp add: isDigit_def unat_digit del: of_nat_add)
qed

lemma decimal_snoc: "decimal (ds @ [c]) = 10 * decimal ds + (uint c - 48)"
  by (simp add: decimal_def)

lemma showNat_digits:
  "showNat n \<noteq> [] \<and> list_all isDigit (showNat n) \<and> decimal (showNat n) = int n"
proof (induction n rule: showNat.induct)
  case (1 n)
  show ?case
  proof (cases "n < 10")
    case True
    then have "showNat n = [of_nat (48 + n)]"
      by (subst showNat.simps) simp
    with True show ?thesis
      using isDigit_of_nat[of n] uint_digit[of n] by (simp add: decimal_def del: of_nat_add)
  next
    case False
    then have s: "showNat n = showNat (n div 10) @ [of_nat (48 + n mod 10)]"
      by (subst showNat.simps) simp
    have m: "n mod 10 < 10" by simp
    have "int n = 10 * int (n div 10) + int (n mod 10)"
      by presburger
    with 1[OF False] s show ?thesis
      using isDigit_of_nat[OF m] uint_digit[OF m]
      by (simp add: decimal_snoc del: of_nat_add)
  qed
qed

lemma Number_showNat:
  "Number rnd (showNat n) = (if n \<le> 2 ^ 53 then Finite (real n) else rnd (int n))"
proof -
  have "int n \<le> 2 ^ 53 \<longleftrightarrow> n \<le> 2 ^ 53"
    by (metis of_nat_le_iff of_nat_numeral of_nat_power)
  then show ?thesis
    using showNat_digits[of n] by (simp add: Number_def)
qed

text \<open>
  C6, as the code has it. \<^verbatim>\<open>parseUsedCitations\<close> returns exactly the values that
  \<^verbatim>\<open>Number\<close> gives to the non-empty strings of decimal digits \<open>ds\<close> for which
  \<^verbatim>\<open>"[C" + ds + "]"\<close> occurs in the answer, leading zeros included. So for every natural
  number \<open>n\<close> whose literal \<^verbatim>\<open>"[C" + n + "]"\<close> occurs in the answer it holds \<open>n\<close> itself
  when \<open>n \<le> 2^53\<close>, and the double that \<open>n\<close> is rounded to when \<open>n\<close> is greater.
\<close>

theorem parseUsedCitations_digits:
  "parseUsedCitations rnd answer
     = {Number rnd ds | ds.
          ds \<noteq> [] \<and> list_all isDigit ds \<and> sublist (js ''[C'' @ ds @ js '']'') answer}
   \<and> (\<forall>n. sublist (citationOf n) answer \<longrightarrow>
          (if n \<le> 2 ^ 53 then Finite (real n) else rnd (int n)) \<in> parseUsedCitations rnd answer)"
proof -
  have "js ''[C'' @ ds @ js '']'' = citationLiteral ds" for ds
    by (simp add: js_def citationLiteral_def)
  then have eq: "parseUsedCitations rnd answer
     = {Number rnd ds | ds.
          ds \<noteq> [] \<and> list_all isDigit ds \<and> sublist (js ''[C'' @ ds @ js '']'') answer}"
    by (auto simp: parseUsedCitations_def citeLoop_cited cited_def)
  have "(if n \<le> 2 ^ 53 then Finite (real n) else rnd (int n)) \<in> parseUsedCitations rnd answer"
    if "sublist (citationOf n) answer" for n
  proof -
    from that have "sublist (js ''[C'' @ showNat n @ js '']'') answer"
      by (simp add: citationOf_def)
    with showNat_digits[of n] have "Number rnd (showNat n) \<in> parseUsedCitations rnd answer"
      unfolding eq by (intro CollectI exI[of _ "showNat n"]) simp
    then show ?thesis
      by (simp only: Number_showNat)
  qed
  with eq show ?thesis
    by blast
qed

theorem parseUsedCitations_digits_witness:
  "parseUsedCitations nearestDouble citedAnswer = {Finite 2, Finite 7} \<and>
   sublist (citationOf 2) citedAnswer \<and> (2 :: nat) \<le> 2 ^ 53 \<and>
   Finite (real 2) \<in> parseUsedCitations nearestDouble citedAnswer \<and>
   js ''07'' \<noteq> [] \<and> list_all isDigit (js ''07'') \<and> Number nearestDouble (js ''07'') = Finite 7 \<and>
   sublist (js ''[C'' @ js ''07'' @ js '']'') citedAnswer"
proof -
  note inst = parseUsedCitations_digits[of nearestDouble citedAnswer]
  have v: "parseUsedCitations nearestDouble citedAnswer = {Finite 2, Finite 7}"
    by code_simp
  have s: "sublist (citationOf 2) citedAnswer"
    by code_simp
  have le: "(2 :: nat) \<le> 2 ^ 53"
    by simp
  from inst s have "(if (2 :: nat) \<le> 2 ^ 53 then Finite (real 2) else nearestDouble (int 2))
                      \<in> parseUsedCitations nearestDouble citedAnswer"
    by blast
  with le have m: "Finite (real 2) \<in> parseUsedCitations nearestDouble citedAnswer"
    by (simp only: if_True)
  have d: "js ''07'' \<noteq> []" "list_all isDigit (js ''07'')"
    "Number nearestDouble (js ''07'') = Finite 7"
    "sublist (js ''[C'' @ js ''07'' @ js '']'') citedAnswer"
    by code_simp+
  from v s le m d show ?thesis
    by blast
qed

text \<open>
  C6 as stated fails: in the answer \<^verbatim>\<open>[C01]\<close> the literal \<^verbatim>\<open>[C1]\<close> does not occur, and
  the result contains 1.
\<close>

theorem parseUsedCitations_leading_zero_counterexample:
  "Finite 1 \<in> parseUsedCitations nearestDouble (js ''[C01]'') \<and>
   citationOf 1 = js ''[C1]'' \<and>
   \<not> sublist (citationOf 1) (js ''[C01]'')"
  by code_simp

text \<open>
  Two more answers: the digits of \<open>2^53 + 1\<close>, which is not a double, give \<open>2^53\<close>; and
  a sign is not a digit, so \<^verbatim>\<open>[C-5]\<close> gives nothing.
\<close>

lemma parseUsedCitations_rounds:
  "parseUsedCitations nearestDouble (js ''[C9007199254740993]'') = {Finite 9007199254740992}"
  by code_simp

lemma parseUsedCitations_sign: "parseUsedCitations rnd (js ''[C-5]'') = {}"
  by code_simp

section \<open>normalizeText applied twice\<close>

lemma set_collapseBlanks: "set (collapseBlanks s) \<subseteq> insert SP (set s)"
proof (induction s rule: collapseBlanks.induct)
  case (2 c cs)
  have "set (dropWhile isBlank cs) \<subseteq> set cs"
    by (auto dest: set_dropWhileD)
  with 2 show ?case by auto
qed simp

lemma set_replaceCRLF: "set (replaceCRLF s) \<subseteq> set s"
  by (induction s rule: replaceCRLF.induct) auto

lemma set_collapseNewlines: "set (collapseNewlines s) \<subseteq> set s"
proof (induction s rule: collapseNewlines.induct)
  case (2 c cs)
  have "set (dropWhile (\<lambda>x. x = LF) cs) \<subseteq> set cs" "set (takeWhile (\<lambda>x. x = LF) cs) \<subseteq> set cs"
    by (auto dest: set_dropWhileD set_takeWhileD)
  with 2 show ?case by (auto simp: Let_def)
qed simp

lemma trim_decomp: "\<exists>a b. s = a @ trim s @ b"
proof -
  let ?d = "dropWhile isWhite s"
  have "s = takeWhile isWhite s @ ?d" by simp
  moreover have "rev ?d = takeWhile isWhite (rev ?d) @ dropWhile isWhite (rev ?d)" by simp
  then have "?d = trim s @ rev (takeWhile isWhite (rev ?d))"
    unfolding trim_def by (metis rev_append rev_rev_ident)
  ultimately show ?thesis by metis
qed

lemma set_trim: "set (trim s) \<subseteq> set s"
  using trim_decomp[of s] by (metis Un_iff set_append subsetI)

lemma trim_trim: "trim (trim s) = trim s"
proof (cases "trim s = []")
  case True
  have "trim [] = []" by (simp add: trim_def)
  with True show ?thesis by simp
next
  case False
  let ?d = "dropWhile isWhite s"
  let ?m = "trim s"
  have m: "?m = rev (dropWhile isWhite (rev ?d))" by (simp add: trim_def)
  have d: "?d \<noteq> []"
  proof
    assume e: "?d = []"
    have "trim s = []" unfolding trim_def e by simp
    with False show False by simp
  qed
  then have "\<not> isWhite (hd ?d)" by (rule hd_dropWhile)
  moreover have "hd ?m = hd ?d"
  proof -
    have "rev ?d = takeWhile isWhite (rev ?d) @ dropWhile isWhite (rev ?d)" by simp
    then have "?d = ?m @ rev (takeWhile isWhite (rev ?d))"
      unfolding trim_def by (metis rev_append rev_rev_ident)
    with False show ?thesis by (metis hd_append2)
  qed
  ultimately have "dropWhile isWhite ?m = ?m"
    using False by (cases ?m) auto
  moreover have "dropWhile isWhite (rev ?m) = rev ?m"
    unfolding m by simp
  ultimately show ?thesis
    by (simp add: trim_def[of ?m])
qed

lemma successively_middle: "successively P (a @ m @ b) \<Longrightarrow> successively P m"
  by (simp add: successively_append_iff)

lemma collapseBlanks_Nil: "collapseBlanks s = [] \<longleftrightarrow> s = []"
  by (cases s) auto

lemma hd_collapseBlanks: "s \<noteq> [] \<Longrightarrow> \<not> isBlank (hd s) \<Longrightarrow> hd (collapseBlanks s) = hd s"
  by (cases s) auto

lemma NoDoubleSpace_collapseBlanks: "NoDoubleSpace (collapseBlanks s)"
proof -
  let ?P = "\<lambda>a b. \<not> (a = SP \<and> b = SP)"
  have t: "TAB \<notin> set (collapseBlanks s)"
  proof (induction s rule: collapseBlanks.induct)
    case (2 c cs)
    then show ?case by (auto simp: isBlank_def SP_def TAB_def)
  qed simp
  have "successively ?P (collapseBlanks s)"
  proof (induction s rule: collapseBlanks.induct)
    case (2 c cs)
    show ?case
    proof (cases "isBlank c")
      case True
      let ?r = "dropWhile isBlank cs"
      have ih: "successively ?P (collapseBlanks ?r)"
        using "2.IH"(1)[OF True] .
      have e: "collapseBlanks (c # cs) = SP # collapseBlanks ?r"
        using True by simp
      have "?r = [] \<or> \<not> isBlank (hd ?r)"
        using hd_dropWhile[of isBlank cs] by blast
      then have "collapseBlanks ?r = [] \<or> hd (collapseBlanks ?r) \<noteq> SP"
      proof
        assume "?r = []"
        then have "collapseBlanks ?r = []" by (simp only: collapseBlanks.simps)
        then show ?thesis ..
      next
        assume n: "\<not> isBlank (hd ?r)"
        show ?thesis
        proof (cases "?r = []")
          case True
          then have "collapseBlanks ?r = []" by (simp only: collapseBlanks.simps)
          then show ?thesis ..
        next
          case False
          from hd_collapseBlanks[OF False n] n have "hd (collapseBlanks ?r) \<noteq> SP"
            by (auto simp: isBlank_def)
          then show ?thesis ..
        qed
      qed
      with ih show ?thesis
        unfolding e successively_Cons by blast
    next
      case False
      have ih: "successively ?P (collapseBlanks cs)"
        using "2.IH"(2)[OF False] .
      have e: "collapseBlanks (c # cs) = c # collapseBlanks cs"
        using False by simp
      from False have "c \<noteq> SP" by (simp add: isBlank_def)
      with ih show ?thesis
        unfolding e successively_Cons by blast
    qed
  qed simp
  with t show ?thesis by (simp add: NoDoubleSpace_def)
qed

lemma collapseBlanks_fix: "NoDoubleSpace s \<Longrightarrow> collapseBlanks s = s"
proof (induction s)
  case (Cons c cs)
  from Cons.prems have tab: "c \<noteq> TAB" "TAB \<notin> set cs"
    and suc: "cs = [] \<or> (\<not> (c = SP \<and> hd cs = SP) \<and> successively (\<lambda>a b. \<not> (a = SP \<and> b = SP)) cs)"
    by (auto simp: NoDoubleSpace_def successively_Cons)
  then have "NoDoubleSpace cs"
    by (auto simp: NoDoubleSpace_def)
  then have ih: "collapseBlanks cs = cs"
    by (rule Cons.IH)
  show ?case
  proof (cases "isBlank c")
    case True
    with tab have c: "c = SP" by (simp add: isBlank_def)
    have "dropWhile isBlank cs = cs"
    proof (cases cs)
      case (Cons x xs)
      with suc c tab have "\<not> isBlank x" by (auto simp: isBlank_def)
      with Cons show ?thesis by simp
    qed simp
    with True ih c show ?thesis by simp
  next
    case False
    with ih show ?thesis by simp
  qed
qed simp

lemma NoDoubleSpace_Cons:
  "NoDoubleSpace (c # s) \<longleftrightarrow>
     c \<noteq> TAB \<and> (s = [] \<or> \<not> (c = SP \<and> hd s = SP)) \<and> NoDoubleSpace s"
  by (auto simp: NoDoubleSpace_def successively_Cons)

lemma NoDoubleSpace_middle: "NoDoubleSpace (a @ m @ b) \<Longrightarrow> NoDoubleSpace m"
  by (auto simp: NoDoubleSpace_def successively_append_iff)

lemma replaceCRLF_Nil: "replaceCRLF s = [] \<longleftrightarrow> s = []"
  by (induction s rule: replaceCRLF.induct) auto

lemma hd_replaceCRLF:
  "hd (replaceCRLF (d # cs)) = (if d = CR \<and> cs \<noteq> [] \<and> hd cs = LF then LF else d)"
  by (cases cs) auto

lemma collapseNewlines_Nil: "collapseNewlines s = [] \<longleftrightarrow> s = []"
  by (cases s) (auto simp: Let_def)

lemma hd_collapseNewlines: "hd (collapseNewlines s) = hd s"
  by (cases s) (auto simp: Let_def)

lemma NoDoubleSpace_replaceCRLF: "NoDoubleSpace s \<Longrightarrow> NoDoubleSpace (replaceCRLF s)"
proof (induction s rule: replaceCRLF.induct)
  case (3 c d cs)
  from "3.prems" have p: "c \<noteq> TAB" "\<not> (c = SP \<and> d = SP)" "NoDoubleSpace (d # cs)" "NoDoubleSpace cs"
    by (auto simp: NoDoubleSpace_Cons)
  show ?case
  proof (cases "c = CR \<and> d = LF")
    case True
    with "3.IH"(1) p have "NoDoubleSpace (replaceCRLF cs)" by simp
    with True show ?thesis
      by (simp add: NoDoubleSpace_Cons) (simp add: LF_def TAB_def SP_def)
  next
    case False
    with "3.IH"(2) p have ih: "NoDoubleSpace (replaceCRLF (d # cs))" by simp
    have e: "replaceCRLF (c # d # cs) = c # replaceCRLF (d # cs)"
      using False by auto
    have "\<not> (c = SP \<and> hd (replaceCRLF (d # cs)) = SP)"
      using p(2) by (auto simp: hd_replaceCRLF LF_def SP_def)
    with ih p(1) show ?thesis
      unfolding e NoDoubleSpace_Cons by blast
  qed
qed simp_all

lemma NoDoubleSpace_newlines:
  assumes "\<forall>x \<in> set r. x = LF" and "NoDoubleSpace y"
  shows "NoDoubleSpace (r @ y)"
  using assms by (induction r) (auto simp: NoDoubleSpace_Cons LF_def TAB_def SP_def)

lemma NoDoubleSpace_collapseNewlines: "NoDoubleSpace s \<Longrightarrow> NoDoubleSpace (collapseNewlines s)"
proof (induction s rule: collapseNewlines.induct)
  case (2 c cs)
  show ?case
  proof (cases "c = LF")
    case True
    let ?rest = "dropWhile (\<lambda>x. x = LF) cs"
    have "c # cs = (c # takeWhile (\<lambda>x. x = LF) cs) @ ?rest @ []" by simp
    with "2.prems" have "NoDoubleSpace ?rest"
      by (metis NoDoubleSpace_middle)
    with "2.IH"(1) True have ih: "NoDoubleSpace (collapseNewlines ?rest)" by simp
    define r where "r = (if 3 \<le> length (c # takeWhile (\<lambda>x. x = LF) cs) then [LF, LF]
                         else c # takeWhile (\<lambda>x. x = LF) cs)"
    have e: "collapseNewlines (c # cs) = r @ collapseNewlines ?rest"
      using True by (simp add: Let_def r_def)
    have "\<forall>x \<in> set r. x = LF"
      using True by (auto simp: r_def dest: set_takeWhileD)
    from NoDoubleSpace_newlines[OF this ih] show ?thesis
      unfolding e .
  next
    case False
    from "2.prems" have p: "c \<noteq> TAB" "cs = [] \<or> \<not> (c = SP \<and> hd cs = SP)" "NoDoubleSpace cs"
      by (auto simp: NoDoubleSpace_Cons)
    with "2.IH"(2) False have "NoDoubleSpace (collapseNewlines cs)" by simp
    with p False show ?thesis
      by (simp add: NoDoubleSpace_Cons hd_collapseNewlines collapseNewlines_Nil)
  qed
qed simp

lemma NoDoubleSpace_trim: "NoDoubleSpace s \<Longrightarrow> NoDoubleSpace (trim s)"
  using trim_decomp[of s] by (metis NoDoubleSpace_middle)

lemma NoCRLF_Cons:
  "NoCRLF (c # s) \<longleftrightarrow> (s = [] \<or> \<not> (c = CR \<and> hd s = LF)) \<and> NoCRLF s"
  by (auto simp: NoCRLF_def successively_Cons)

lemma NoCRLF_middle: "NoCRLF (a @ m @ b) \<Longrightarrow> NoCRLF m"
  by (auto simp: NoCRLF_def successively_append_iff)

lemma sublist_tail: "\<not> sublist p (c # s) \<Longrightarrow> \<not> sublist p s"
  by (simp add: sublist_Cons_right)

lemma NoCRLF_replaceCRLF:
  "\<not> sublist [CR, CR, LF] s \<Longrightarrow> NoCRLF (replaceCRLF s)"
proof (induction s rule: replaceCRLF.induct)
  case (3 c d cs)
  from "3.prems" have h: "\<not> sublist [CR, CR, LF] (d # cs)" "\<not> sublist [CR, CR, LF] cs"
    by (blast dest: sublist_tail)+
  show ?case
  proof (cases "c = CR \<and> d = LF")
    case True
    with "3.IH"(1) h have "NoCRLF (replaceCRLF cs)" by simp
    with True show ?thesis
      by (simp add: NoCRLF_Cons) (simp add: LF_def CR_def)
  next
    case False
    with "3.IH"(2) h have ih: "NoCRLF (replaceCRLF (d # cs))" by simp
    have e: "replaceCRLF (c # d # cs) = c # replaceCRLF (d # cs)"
      using False by auto
    have "\<not> (c = CR \<and> hd (replaceCRLF (d # cs)) = LF)"
    proof
      assume a: "c = CR \<and> hd (replaceCRLF (d # cs)) = LF"
      with False have "d \<noteq> LF" by simp
      with a have "d = CR \<and> cs \<noteq> [] \<and> hd cs = LF"
        by (simp add: hd_replaceCRLF split: if_splits)
      then obtain cs' where "cs = LF # cs'" and "d = CR"
        by (cases cs) auto
      with a have "prefix [CR, CR, LF] (c # d # cs)" by simp
      then have "sublist [CR, CR, LF] (c # d # cs)" by (rule prefix_imp_sublist)
      with "3.prems" show False by simp
    qed
    with ih show ?thesis
      unfolding e NoCRLF_Cons by blast
  qed
qed (simp_all add: NoCRLF_def)

lemma replaceCRLF_fix: "NoCRLF s \<Longrightarrow> replaceCRLF s = s"
proof (induction s rule: replaceCRLF.induct)
  case (3 c d cs)
  from "3.prems" have "\<not> (c = CR \<and> d = LF)" "NoCRLF (d # cs)"
    by (auto simp: NoCRLF_Cons)
  with "3.IH"(2) show ?case by auto
qed simp_all

lemma NoCRLF_newlines:
  assumes "\<forall>x \<in> set r. x = LF" and "NoCRLF y"
  shows "NoCRLF (r @ y)"
  using assms by (induction r) (auto simp: NoCRLF_Cons LF_def CR_def)

lemma NoCRLF_collapseNewlines: "NoCRLF s \<Longrightarrow> NoCRLF (collapseNewlines s)"
proof (induction s rule: collapseNewlines.induct)
  case (2 c cs)
  show ?case
  proof (cases "c = LF")
    case True
    let ?rest = "dropWhile (\<lambda>x. x = LF) cs"
    have "c # cs = (c # takeWhile (\<lambda>x. x = LF) cs) @ ?rest @ []" by simp
    with "2.prems" have "NoCRLF ?rest"
      by (metis NoCRLF_middle)
    with "2.IH"(1) True have ih: "NoCRLF (collapseNewlines ?rest)" by simp
    define r where "r = (if 3 \<le> length (c # takeWhile (\<lambda>x. x = LF) cs) then [LF, LF]
                         else c # takeWhile (\<lambda>x. x = LF) cs)"
    have e: "collapseNewlines (c # cs) = r @ collapseNewlines ?rest"
      using True by (simp add: Let_def r_def)
    have "\<forall>x \<in> set r. x = LF"
      using True by (auto simp: r_def dest: set_takeWhileD)
    from NoCRLF_newlines[OF this ih] show ?thesis
      unfolding e .
  next
    case False
    from "2.prems" have p: "cs = [] \<or> \<not> (c = CR \<and> hd cs = LF)" "NoCRLF cs"
      by (auto simp: NoCRLF_Cons)
    with "2.IH"(2) False have "NoCRLF (collapseNewlines cs)" by simp
    with p False show ?thesis
      by (simp add: NoCRLF_Cons hd_collapseNewlines collapseNewlines_Nil)
  qed
qed simp

lemma NoCRLF_trim: "NoCRLF s \<Longrightarrow> NoCRLF (trim s)"
  using trim_decomp[of s] by (metis NoCRLF_middle)

text \<open>The two steps before \<open>replaceCRLF\<close> make no new CR CR LF.\<close>

lemma replaceNul_CRCRLF:
  "\<not> sublist [CR, CR, LF] s \<Longrightarrow> \<not> sublist [CR, CR, LF] (replaceNul s)"
proof (induction s)
  case (Cons c s)
  from Cons.prems have "\<not> sublist [CR, CR, LF] s" by (rule sublist_tail)
  with Cons.IH have ih: "\<not> sublist [CR, CR, LF] (replaceNul s)" by simp
  have "\<not> prefix [CR, CR, LF] (replaceNul (c # s))"
  proof
    assume "prefix [CR, CR, LF] (replaceNul (c # s))"
    then have "prefix [CR, CR, LF] (c # s)"
      by (auto simp: prefix_def replaceNul_def map_eq_Cons_conv CR_def LF_def SP_def NUL_def
          split: if_splits)
    then have "sublist [CR, CR, LF] (c # s)" by (rule prefix_imp_sublist)
    with Cons.prems show False by simp
  qed
  with ih show ?case
    by (simp add: sublist_Cons_right replaceNul_def)
qed (simp add: replaceNul_def)

lemma collapseBlanks_Cons_reflect:
  assumes "collapseBlanks s = x # y" and "\<not> isBlank x"
  shows "\<exists>s'. s = x # s' \<and> collapseBlanks s' = y"
  using assms by (cases s) (auto simp: isBlank_def split: if_splits)

lemma collapseBlanks_CRCRLF:
  "\<not> sublist [CR, CR, LF] s \<Longrightarrow> \<not> sublist [CR, CR, LF] (collapseBlanks s)"
proof (induction s rule: collapseBlanks.induct)
  case (2 c cs)
  from "2.prems" have h: "\<not> sublist [CR, CR, LF] cs" by (rule sublist_tail)
  show ?case
  proof (cases "isBlank c")
    case True
    let ?r = "dropWhile isBlank cs"
    have "suffix ?r cs" by (rule suffix_dropWhile)
    with h have "\<not> sublist [CR, CR, LF] ?r"
      by (meson sublist_order.order.trans suffix_imp_sublist)
    with "2.IH"(1) True have "\<not> sublist [CR, CR, LF] (collapseBlanks ?r)" by simp
    with True show ?thesis
      by (simp add: sublist_Cons_right) (simp add: CR_def SP_def)
  next
    case False
    with "2.IH"(2) h have ih: "\<not> sublist [CR, CR, LF] (collapseBlanks cs)" by simp
    have "\<not> prefix [CR, CR, LF] (c # collapseBlanks cs)"
    proof
      assume "prefix [CR, CR, LF] (c # collapseBlanks cs)"
      then obtain z where c: "c = CR" and 1: "collapseBlanks cs = CR # LF # z"
        by (auto simp: prefix_def)
      have nb: "\<not> isBlank CR" "\<not> isBlank LF"
        by (simp_all add: isBlank_def CR_def LF_def SP_def TAB_def)
      from collapseBlanks_Cons_reflect[OF 1 nb(1)] obtain s' where
        s': "cs = CR # s'" "collapseBlanks s' = LF # z" by blast
      from collapseBlanks_Cons_reflect[OF s'(2) nb(2)] obtain s'' where
        "s' = LF # s''" by blast
      with s' c have "prefix [CR, CR, LF] (c # cs)" by simp
      then have "sublist [CR, CR, LF] (c # cs)" by (rule prefix_imp_sublist)
      with "2.prems" show False by simp
    qed
    with ih False show ?thesis
      by (simp add: sublist_Cons_right)
  qed
qed simp

text \<open>Runs of three newlines.\<close>

lemma collapseNewlines_no3: "\<not> sublist [LF, LF, LF] (collapseNewlines s)"
proof (induction s rule: collapseNewlines.induct)
  case (2 c cs)
  show ?case
  proof (cases "c = LF")
    case True
    let ?rest = "dropWhile (\<lambda>x. x = LF) cs"
    let ?y = "collapseNewlines ?rest"
    from "2.IH"(1) True have ih: "\<not> sublist [LF, LF, LF] ?y" by simp
    have "?rest = [] \<or> hd ?rest \<noteq> LF"
      using hd_dropWhile[of "\<lambda>x. x = LF" cs] by blast
    then have y: "?y = [] \<or> hd ?y \<noteq> LF"
      by (auto simp: hd_collapseNewlines collapseNewlines_Nil)
    have 1: "\<not> sublist [LF, LF, LF] (LF # ?y)"
      using ih y by (cases ?y) (auto simp: sublist_Cons_right)
    then have 2: "\<not> sublist [LF, LF, LF] (LF # LF # ?y)"
      using y by (cases ?y) (auto simp: sublist_Cons_right)
    have "takeWhile (\<lambda>x. x = LF) cs = [] \<or> takeWhile (\<lambda>x. x = LF) cs = [LF]
          \<or> 2 \<le> length (takeWhile (\<lambda>x. x = LF) cs)"
    proof (cases "takeWhile (\<lambda>x. x = LF) cs")
      case (Cons a as)
      then have "a \<in> set (takeWhile (\<lambda>x. x = LF) cs)" by simp
      then have "a = LF" by (auto dest: set_takeWhileD)
      with Cons show ?thesis by (cases as) auto
    qed simp
    then show ?thesis
      using True 1 2 by (auto simp: Let_def)
  next
    case False
    with "2.IH"(2) have "\<not> sublist [LF, LF, LF] (collapseNewlines cs)" by simp
    with False show ?thesis
      by (simp add: sublist_Cons_right)
  qed
qed simp

lemma collapseNewlines_fix: "\<not> sublist [LF, LF, LF] s \<Longrightarrow> collapseNewlines s = s"
proof (induction s rule: collapseNewlines.induct)
  case (2 c cs)
  from "2.prems" have h: "\<not> sublist [LF, LF, LF] cs" by (rule sublist_tail)
  show ?case
  proof (cases "c = LF")
    case True
    let ?rest = "dropWhile (\<lambda>x. x = LF) cs"
    let ?run = "takeWhile (\<lambda>x. x = LF) cs"
    have "suffix ?rest cs" by (rule suffix_dropWhile)
    with h have "\<not> sublist [LF, LF, LF] ?rest"
      by (meson sublist_order.order.trans suffix_imp_sublist)
    with "2.IH"(1) True have ih: "collapseNewlines ?rest = ?rest" by simp
    have short: "\<not> 2 \<le> length ?run"
    proof
      assume "2 \<le> length ?run"
      then obtain a b as where r: "?run = a # b # as"
        by (cases ?run; cases "tl ?run") auto
      then have "a \<in> set ?run" "b \<in> set ?run" by simp_all
      then have ab: "a = LF" "b = LF"
        by (auto dest: set_takeWhileD)
      have "cs = ?run @ ?rest" by simp
      with r ab have "cs = [LF, LF] @ (as @ ?rest)" by simp
      then have "prefix [LF, LF] cs" by (rule prefixI)
      with True have "prefix [LF, LF, LF] (c # cs)"
        by simp
      then have "sublist [LF, LF, LF] (c # cs)" by (rule prefix_imp_sublist)
      with "2.prems" show False by simp
    qed
    with True ih show ?thesis
      by (simp add: Let_def)
  next
    case False
    with "2.IH"(2) h show ?thesis by simp
  qed
qed simp

lemma sublist_trim: "sublist (trim s) s"
  using trim_decomp[of s] by (metis sublist_appendI)

lemma trim_no_pattern: "\<not> sublist p s \<Longrightarrow> \<not> sublist p (trim s)"
  using sublist_trim[of s] by (meson sublist_order.order.trans)

lemma replaceNul_fix: "NUL \<notin> set s \<Longrightarrow> replaceNul s = s"
  by (induction s) (auto simp: replaceNul_def)

lemma normalizeText_clean:
  assumes "\<not> sublist [CR, CR, LF] t"
  shows "NUL \<notin> set (normalizeText t)" and "NoDoubleSpace (normalizeText t)"
    and "NoCRLF (normalizeText t)" and "\<not> sublist [LF, LF, LF] (normalizeText t)"
proof -
  let ?w1 = "replaceNul t"
  let ?w2 = "collapseBlanks ?w1"
  let ?w3 = "replaceCRLF ?w2"
  let ?w4 = "collapseNewlines ?w3"
  have n: "normalizeText t = trim ?w4"
    by (simp add: normalizeText_def)
  have "NUL \<notin> set ?w1"
    by (auto simp: replaceNul_def NUL_def SP_def)
  then have "NUL \<notin> set ?w2"
    using set_collapseBlanks[of ?w1] by (auto simp: NUL_def SP_def)
  then have "NUL \<notin> set ?w3"
    using set_replaceCRLF[of ?w2] by blast
  then have "NUL \<notin> set ?w4"
    using set_collapseNewlines[of ?w3] by blast
  then show "NUL \<notin> set (normalizeText t)"
    unfolding n using set_trim[of ?w4] by blast
  have "NoDoubleSpace ?w2"
    by (rule NoDoubleSpace_collapseBlanks)
  then have "NoDoubleSpace ?w4"
    by (intro NoDoubleSpace_collapseNewlines NoDoubleSpace_replaceCRLF)
  then show "NoDoubleSpace (normalizeText t)"
    unfolding n by (rule NoDoubleSpace_trim)
  from assms have "\<not> sublist [CR, CR, LF] ?w2"
    by (intro collapseBlanks_CRCRLF replaceNul_CRCRLF)
  then have "NoCRLF ?w3"
    by (rule NoCRLF_replaceCRLF)
  then have "NoCRLF ?w4"
    by (rule NoCRLF_collapseNewlines)
  then show "NoCRLF (normalizeText t)"
    unfolding n by (rule NoCRLF_trim)
  have "\<not> sublist [LF, LF, LF] ?w4"
    by (rule collapseNewlines_no3)
  then show "\<not> sublist [LF, LF, LF] (normalizeText t)"
    unfolding n by (rule trim_no_pattern)
qed

text \<open>
  C4, as the code has it. On every text in which no carriage return stands right before
  a carriage return and line feed, \<^verbatim>\<open>normalizeText\<close> is idempotent. (The pass that
  replaces \<^verbatim>\<open>\r\n\<close> runs once, so \<^verbatim>\<open>\r\r\n\<close> leaves a \<^verbatim>\<open>\r\n\<close> behind.)
\<close>

theorem normalizeText_idempotent:
  assumes "\<not> sublist [CR, CR, LF] t"
  shows "normalizeText (normalizeText t) = normalizeText t"
proof -
  let ?r = "normalizeText t"
  note c = normalizeText_clean[OF assms]
  have 1: "replaceNul ?r = ?r" using c(1) by (rule replaceNul_fix)
  have 2: "collapseBlanks ?r = ?r" using c(2) by (rule collapseBlanks_fix)
  have 3: "replaceCRLF ?r = ?r" using c(3) by (rule replaceCRLF_fix)
  have 4: "collapseNewlines ?r = ?r" using c(4) by (rule collapseNewlines_fix)
  have 5: "trim ?r = ?r" by (simp add: normalizeText_def trim_trim)
  show ?thesis
    unfolding normalizeText_def[of ?r] 1 2 3 4 5 ..
qed

theorem normalizeText_idempotent_witness:
  "\<not> sublist [CR, CR, LF] windowsText \<and>
   normalizeText windowsText = [0x61, 0x20, 0x62, 0x0A, 0x0A, 0x63] \<and>
   normalizeText (normalizeText windowsText) = normalizeText windowsText"
proof -
  have h: "\<not> sublist [CR, CR, LF] windowsText"
    by code_simp
  have v: "normalizeText windowsText = [0x61, 0x20, 0x62, 0x0A, 0x0A, 0x63]"
    by code_simp
  from normalizeText_idempotent[OF h] h v show ?thesis
    by blast
qed

text \<open>
  C4 as stated fails: the text \<^verbatim>\<open>a\r\r\nb\<close> is normalized to \<^verbatim>\<open>a\r\nb\<close>, and that
  to \<^verbatim>\<open>a\nb\<close>.
\<close>

theorem normalizeText_stray_CR_counterexample:
  "normalizeText strayCRText = [0x61, 0x0D, 0x0A, 0x62] \<and>
   normalizeText (normalizeText strayCRText) = [0x61, 0x0A, 0x62] \<and>
   normalizeText (normalizeText strayCRText) \<noteq> normalizeText strayCRText"
  by code_simp

end
